theory Spec2Isabelle
  imports Main "HOL-Library.Word" "HOL-Library.Multiset" "HOL-Library.AList"
begin

unbundle bit_operations_syntax

section \<open>The data model\<close>

text \<open>
  The repository holds the hook \<open>useDestucturing\<close> in two files: \<open>src/use-destructuring.ts\<close>
  and \<open>src/unnamed/part_000\<close>. Most functions are the same in both. Three differ
  (\<open>replaceAtIndex\<close>, \<open>createObjectPropertySetState\<close>, \<open>memoizeObject\<close>); they are embedded
  twice, with the suffix \<open>_ud\<close> for \<open>src/use-destructuring.ts\<close> and \<open>_p0\<close> for
  \<open>src/unnamed/part_000\<close>.

  Reference identity matters to every property of this library, so each object whose identity is
  observed carries one: arrays, objects, the closures the library creates and the collection a
  derivation returns. Identities are natural numbers handed out by an allocator; the heap is
  represented by the next identity not yet in use. The state containers are never mutated after
  they are built, so an array or object is its identity together with its contents. An array is
  the list of its slots, \<open>None\<close> for a hole (a slot that was never written), and its length
  is the length of that list. An object is the list of its own enumerable string-keyed properties
  in the order of \<open>Object.keys\<close>; what it inherits from its prototype is a parameter
  \<open>inherited\<close> of the functions that read a property. The place that \<open>Object.keys\<close> gives
  to keys that look like array indices is not modelled; no property below depends on the order of
  the keys.
\<close>

type_synonym ref = nat
type_synonym heap = nat

definition alloc :: "heap \<Rightarrow> ref \<times> heap" where
  "alloc h = (h, Suc h)"

text \<open>A JavaScript string is a sequence of UTF-16 code units (what \<open>charCodeAt\<close> reads).\<close>

type_synonym jsstring = "16 word list"

definition utf16 :: "string \<Rightarrow> jsstring" where
  "utf16 s = map of_char s"

text \<open>
  Runtime values. \<open>VNumber\<close> stands for the numbers other than \<open>NaN\<close>; only \<open>===\<close> is ever
  applied to an element, so integers are enough. A function is its identity. Symbols and bigints
  are not modelled.
\<close>

datatype jsval =
    VUndefined
  | VNull
  | VBoolean bool
  | VNumber int
  | VNaN
  | VString jsstring
  | VFunction ref
  | VArray "ref \<times> jsval option list"
  | VObject "ref \<times> (jsstring \<times> jsval) list"

type_synonym jsarray = "ref \<times> jsval option list"
type_synonym jsobject = "ref \<times> (jsstring \<times> jsval) list"

text \<open>
  \<open>a === b\<close>: primitives by value (\<open>NaN\<close> equals nothing), functions, arrays and objects
  by reference.
\<close>

definition strict_eq :: "jsval \<Rightarrow> jsval \<Rightarrow> bool" where
  "strict_eq a b =
     (case a of
        VNaN \<Rightarrow> False
      | VArray x \<Rightarrow> (case b of VArray y \<Rightarrow> fst x = fst y | _ \<Rightarrow> False)
      | VObject x \<Rightarrow> (case b of VObject y \<Rightarrow> fst x = fst y | _ \<Rightarrow> False)
      | _ \<Rightarrow> a = b)"

definition typeof :: "jsval \<Rightarrow> string" where
  "typeof v =
     (case v of
        VUndefined \<Rightarrow> ''undefined''
      | VNull \<Rightarrow> ''object''
      | VBoolean _ \<Rightarrow> ''boolean''
      | VNumber _ \<Rightarrow> ''number''
      | VNaN \<Rightarrow> ''number''
      | VString _ \<Rightarrow> ''string''
      | VFunction _ \<Rightarrow> ''function''
      | VArray _ \<Rightarrow> ''object''
      | VObject _ \<Rightarrow> ''object'')"

text \<open>
  \<open>array[index]\<close>: a hole and a slot past the end read as \<open>undefined\<close>. (The indices
  are those the library binds, natural numbers; an array inherits nothing under such a name.)
\<close>

definition element_at :: "jsval option list \<Rightarrow> nat \<Rightarrow> jsval" where
  "element_at xs i =
     (if i < length xs then (case xs ! i of Some v \<Rightarrow> v | None \<Rightarrow> VUndefined)
      else VUndefined)"

text \<open>
  \<open>object[key]\<close>: the own property, else the inherited one (for a plain object, those of
  \<open>Object.prototype\<close>, such as \<open>constructor\<close> and \<open>toString\<close>), else \<open>undefined\<close>.
\<close>

definition property_at ::
    "(jsstring \<Rightarrow> jsval option) \<Rightarrow> (jsstring \<times> jsval) list \<Rightarrow> jsstring \<Rightarrow> jsval" where
  "property_at inherited ps k =
     (case map_of ps k of
        Some v \<Rightarrow> v
      | None \<Rightarrow> (case inherited k of Some v \<Rightarrow> v | None \<Rightarrow> VUndefined))"

text \<open>\<open>[...array]\<close>: the iterator of an array yields \<open>undefined\<close> for a hole.\<close>

definition spread :: "jsval option list \<Rightarrow> jsval option list" where
  "spread xs = map (\<lambda>x. Some (case x of Some v \<Rightarrow> v | None \<Rightarrow> VUndefined)) xs"

text \<open>
  \<open>result[index] = v\<close>: inside the array the slot is overwritten; past its end the array is
  extended, and the slots in between are holes.
\<close>

definition assign_index :: "jsval option list \<Rightarrow> nat \<Rightarrow> jsval \<Rightarrow> jsval option list" where
  "assign_index xs i v =
     (if i < length xs then xs[i := Some v]
      else xs @ replicate (i - length xs) None @ [Some v])"

text \<open>
  \<open>React.SetStateAction<T>\<close> is a new value or a function of the previous value. A function may
  allocate, so it takes and returns the heap. A call \<open>setState(action)\<close> of a setter handed in by
  the host is recorded as the setter's identity and the action it was given.
\<close>

datatype 'a SetStateAction = Value 'a | Updater "'a \<Rightarrow> heap \<Rightarrow> 'a \<times> heap"

datatype 'a setStateCall = SetStateCall ref "'a SetStateAction"

text \<open>
  The two messages thrown with \<open>new Error\<close>, and the \<open>TypeError\<close> that reading
  \<open>cache[i][0]\<close> raises when \<open>cache[i]\<close> is \<open>undefined\<close>.
\<close>

datatype error = ErrorNotObjectOrArray | ErrorEmptyKey | TypeError

text \<open>
  A closure made by one of the three \<open>create...\<close> functions: its own identity, the setter it
  captured, and the index or key it captured.
\<close>

datatype closure =
    ArrayElementSetState ref ref nat
  | DeleteAction ref ref nat
  | ObjectPropertySetState ref ref jsstring

type_synonym ArrayCache = "(closure \<times> closure) list"
type_synonym ObjectCache = "(jsstring \<times> closure) list"

datatype cache = ArrayCache ArrayCache | ObjectCache ObjectCache

datatype result =
    ArraySetState ref "(jsval \<times> closure \<times> closure) option list"
  | ObjectSetState ref "(jsstring \<times> closure) list"

section \<open>Hashing the keys\<close>

definition imul :: "32 word \<Rightarrow> 32 word \<Rightarrow> 32 word" where
  "imul a b = a * b"

fun hashString_loop :: "jsstring \<Rightarrow> 32 word \<times> 32 word \<Rightarrow> 32 word \<times> 32 word" where
  "hashString_loop [] (h1, h2) = (h1, h2)"
| "hashString_loop (ch # str) (h1, h2) =
     hashString_loop str
       (imul (h1 XOR ucast ch) 2654435761, imul (h2 XOR ucast ch) 1597334677)"

text \<open>
  \<open>h1\<close> and \<open>h2\<close> only ever hold results of \<open>^\<close> and \<open>Math.imul\<close>, which are 32-bit
  integers. The seed is an integer-valued number, reduced to 32 bits by \<open>^\<close>. The returned
  number is below \<open>2^53\<close>, where a double holds every integer exactly.
\<close>

definition hashString :: "jsstring \<Rightarrow> int \<Rightarrow> int" where
  "hashString str seed =
     (let h1 = 0xdeadbeef XOR word_of_int seed;
          h2 = 0x41c6ce57 XOR word_of_int seed;
          (h1, h2) = hashString_loop str (h1, h2);
          h1 = imul (h1 XOR drop_bit 16 h1) 2246822507;
          h1 = h1 XOR imul (h2 XOR drop_bit 13 h2) 3266489909;
          h2 = imul (h2 XOR drop_bit 16 h2) 2246822507;
          h2 = h2 XOR imul (h1 XOR drop_bit 13 h1) 3266489909
      in 4294967296 * uint (2097151 AND h2) + uint h1)"

text \<open>\<open>a ^ b\<close> on numbers: both operands go through \<open>ToInt32\<close>, the result is a signed 32-bit integer.\<close>

definition bitxor :: "int \<Rightarrow> int \<Rightarrow> int" where
  "bitxor a b = sint ((word_of_int a :: 32 word) XOR word_of_int b)"

definition hashStrings :: "jsstring list \<Rightarrow> int" where
  "hashStrings str = foldl bitxor 0 (map (\<lambda>s. hashString s 0) str)"

section \<open>Small helpers\<close>

definition isArray :: "jsval \<Rightarrow> bool" where
  "isArray v = (case v of VArray _ \<Rightarrow> True | _ \<Rightarrow> False)"

definition isObjectOrArray :: "jsval \<Rightarrow> bool" where
  "isObjectOrArray obj = (obj \<noteq> VNull \<and> typeof obj = ''object'')"

definition isArrayCache :: "cache \<Rightarrow> bool" where
  "isArrayCache current = (case current of ArrayCache _ \<Rightarrow> True | ObjectCache _ \<Rightarrow> False)"

definition isObjectCache :: "cache \<Rightarrow> bool" where
  "isObjectCache current = (case current of ObjectCache _ \<Rightarrow> True | ArrayCache _ \<Rightarrow> False)"

text \<open>\<open>narrowRef\<close> returns the ref it was given; the model returns what the ref then holds.\<close>

definition narrowRef :: "cache \<Rightarrow> (cache \<Rightarrow> bool) \<Rightarrow> cache \<Rightarrow> cache" where
  "narrowRef current isNarrow setIfNotNarrow =
     (if \<not> isNarrow current then setIfNotNarrow else current)"

definition keysOf :: "jsobject \<Rightarrow> jsstring list" where
  "keysOf object = map fst (snd object)"

definition limit :: "'a list \<Rightarrow> nat \<Rightarrow> 'a list" where
  "limit array n = (if n \<ge> length array then array else take n array)"

text \<open>
  \<open>Array(count).fill(undefined).map(...)\<close> with a callback that allocates, and the source's
  \<open>append\<close> (named \<open>append_new\<close> here, \<open>append\<close> being the list concatenation of HOL).
\<close>

fun map_alloc :: "(nat \<Rightarrow> heap \<Rightarrow> 'a \<times> heap) \<Rightarrow> nat list \<Rightarrow> heap \<Rightarrow> 'a list \<times> heap" where
  "map_alloc f [] h = ([], h)"
| "map_alloc f (i # is) h =
     (let (x, h1) = f i h; (xs, h2) = map_alloc f is h1 in (x # xs, h2))"

definition append_new :: "nat \<Rightarrow> int \<Rightarrow> (nat \<Rightarrow> heap \<Rightarrow> 'a \<times> heap) \<Rightarrow> heap \<Rightarrow> 'a list \<times> heap" where
  "append_new offset cnt factory h =
     (if cnt < 1 then ([], h)
      else map_alloc (\<lambda>i. factory (offset + i)) [0..<nat cnt] h)"

text \<open>
  \<open>toUpperCase\<close> is modelled on the ASCII letters only; no property below depends on the
  accessor names.
\<close>

definition toUpperCase :: "jsstring \<Rightarrow> jsstring" where
  "toUpperCase s = map (\<lambda>c. if 0x61 \<le> c \<and> c \<le> 0x7A then c - 0x20 else c) s"

definition capitalize :: "jsstring \<Rightarrow> error + jsstring" where
  "capitalize key =
     (if length key = 0 then Inl ErrorEmptyKey
      else Inr (toUpperCase (take 1 key) @ drop 1 key))"

definition evaluateSetStateAction :: "'a SetStateAction \<Rightarrow> 'a \<Rightarrow> heap \<Rightarrow> 'a \<times> heap" where
  "evaluateSetStateAction setStateAction oldValue h =
     (case setStateAction of Updater f \<Rightarrow> f oldValue h | Value v \<Rightarrow> (v, h))"

section \<open>Synthesizing the setters\<close>

text \<open>\<open>src/use-destructuring.ts\<close>: always a copy.\<close>

definition replaceAtIndex_ud :: "jsarray \<Rightarrow> nat \<Rightarrow> jsval \<Rightarrow> heap \<Rightarrow> jsarray \<times> heap" where
  "replaceAtIndex_ud array index newValue h =
     (let (r, h1) = alloc h
      in ((r, assign_index (spread (snd array)) index newValue), h1))"

text \<open>\<open>src/unnamed/part_000\<close>: the array itself when the element does not change.\<close>

definition replaceAtIndex_p0 :: "jsarray \<Rightarrow> nat \<Rightarrow> jsval \<Rightarrow> heap \<Rightarrow> jsarray \<times> heap" where
  "replaceAtIndex_p0 array index newElement h =
     (let oldElement = element_at (snd array) index
      in if strict_eq oldElement newElement then (array, h)
         else let (r, h1) = alloc h
              in ((r, assign_index (spread (snd array)) index newElement), h1))"

text \<open>
  Each \<open>create...\<close> function returns a new closure. The model splits it in two: the creation,
  which allocates the closure's identity and records what it captures, and a function named
  \<open>call...\<close> for what the closure does when it is called: it calls the captured setter with
  an updater.
\<close>

definition createArrayElementSetState :: "ref \<Rightarrow> nat \<Rightarrow> heap \<Rightarrow> closure \<times> heap" where
  "createArrayElementSetState setArray index h =
     (let (r, h1) = alloc h in (ArrayElementSetState r setArray index, h1))"

definition callArrayElementSetState_ud ::
    "ref \<Rightarrow> nat \<Rightarrow> jsval SetStateAction \<Rightarrow> jsarray setStateCall" where
  "callArrayElementSetState_ud setArray index setElement =
     SetStateCall setArray (Updater (\<lambda>oldArray h.
       let (v, h1) = evaluateSetStateAction setElement (element_at (snd oldArray) index) h
       in replaceAtIndex_ud oldArray index v h1))"

definition callArrayElementSetState_p0 ::
    "ref \<Rightarrow> nat \<Rightarrow> jsval SetStateAction \<Rightarrow> jsarray setStateCall" where
  "callArrayElementSetState_p0 setArray index setElement =
     SetStateCall setArray (Updater (\<lambda>oldArray h.
       let (v, h1) = evaluateSetStateAction setElement (element_at (snd oldArray) index) h
       in replaceAtIndex_p0 oldArray index v h1))"

definition createDeleteAction :: "ref \<Rightarrow> nat \<Rightarrow> heap \<Rightarrow> closure \<times> heap" where
  "createDeleteAction setArray index h =
     (let (r, h1) = alloc h in (DeleteAction r setArray index, h1))"

text \<open>
  \<open>oldArray.filter((_, j) => j !== index)\<close> builds a new array. \<open>filter\<close> does not call
  its callback on a hole and leaves the hole out.
\<close>

definition callDeleteAction :: "ref \<Rightarrow> nat \<Rightarrow> jsarray setStateCall" where
  "callDeleteAction setArray index =
     SetStateCall setArray (Updater (\<lambda>oldArray h.
       let (r, h1) = alloc h
       in ((r, map fst (filter (\<lambda>(x, j). x \<noteq> None \<and> j \<noteq> index)
                          (zip (snd oldArray) [0..<length (snd oldArray)]))), h1)))"

definition createObjectPropertySetState :: "ref \<Rightarrow> jsstring \<Rightarrow> heap \<Rightarrow> closure \<times> heap" where
  "createObjectPropertySetState setObject propertyKey h =
     (let (r, h1) = alloc h in (ObjectPropertySetState r setObject propertyKey, h1))"

text \<open>
  \<open>{...oldObject, [propertyKey]: v}\<close> keeps the place of a key already there, or adds it
  last. In \<open>src/use-destructuring.ts\<close> the update argument is resolved inside the object
  literal, so after the new object is allocated. The first parameter is what the old object
  inherits.
\<close>

definition callObjectPropertySetState_ud ::
    "(jsstring \<Rightarrow> jsval option) \<Rightarrow> ref \<Rightarrow> jsstring \<Rightarrow> jsval SetStateAction
      \<Rightarrow> jsobject setStateCall" where
  "callObjectPropertySetState_ud inherited setObject propertyKey setProperty =
     SetStateCall setObject (Updater (\<lambda>oldObject h.
       let (r, h1) = alloc h;
           (v, h2) = evaluateSetStateAction setProperty
                       (property_at inherited (snd oldObject) propertyKey) h1
       in ((r, AList.update propertyKey v (snd oldObject)), h2)))"

definition callObjectPropertySetState_p0 ::
    "(jsstring \<Rightarrow> jsval option) \<Rightarrow> ref \<Rightarrow> jsstring \<Rightarrow> jsval SetStateAction
      \<Rightarrow> jsobject setStateCall" where
  "callObjectPropertySetState_p0 inherited setObject propertyKey setProperty =
     SetStateCall setObject (Updater (\<lambda>oldObject h.
       let oldProperty = property_at inherited (snd oldObject) propertyKey;
           (newProperty, h1) = evaluateSetStateAction setProperty oldProperty h
       in if strict_eq oldProperty newProperty then (oldObject, h1)
          else let (r, h2) = alloc h1
               in ((r, AList.update propertyKey newProperty (snd oldObject)), h2)))"

section \<open>Reconciling the caches\<close>

text \<open>
  \<open>array.map((s, i) => [s, cache[i][0], cache[i][1]])\<close>, from index \<open>i\<close> on. \<open>map\<close>
  does not call its callback on a hole and leaves a hole in the result.
\<close>

fun zip_cache ::
    "jsval option list \<Rightarrow> nat \<Rightarrow> ArrayCache \<Rightarrow> error + (jsval \<times> closure \<times> closure) option list" where
  "zip_cache [] i cache = Inr []"
| "zip_cache (None # ss) i cache =
     (case zip_cache ss (Suc i) cache of
        Inl e \<Rightarrow> Inl e
      | Inr ts \<Rightarrow> Inr (None # ts))"
| "zip_cache (Some s # ss) i cache =
     (if i < length cache
      then (case zip_cache ss (Suc i) cache of
              Inl e \<Rightarrow> Inl e
            | Inr ts \<Rightarrow> Inr (Some (s, fst (cache ! i), snd (cache ! i)) # ts))
      else Inl TypeError)"

text \<open>
  \<open>memoizeArray\<close> is the same in both files. It returns the derived collection, what
  \<open>ref.current\<close> holds afterwards, and the heap.
\<close>

definition memoizeArray ::
    "ArrayCache \<Rightarrow> jsarray \<Rightarrow> ref \<Rightarrow> heap \<Rightarrow> (error + result) \<times> ArrayCache \<times> heap" where
  "memoizeArray current array setArray h =
     (let (cache, h1) =
            (if length current \<noteq> length (snd array)
             then let kept = limit current (length (snd array));
                      (new, h') = append_new (length current)
                                    (int (length (snd array)) - int (length current))
                                    (\<lambda>i h. let (s, ha) = createArrayElementSetState setArray i h;
                                                (d, hb) = createDeleteAction setArray i ha
                                            in ((s, d), hb)) h
                  in (kept @ new, h')
             else (current, h))
      in case zip_cache (snd array) 0 cache of
           Inl e \<Rightarrow> (Inl e, cache, h1)
         | Inr ts \<Rightarrow> (let (r, h2) = alloc h1 in (Inr (ArraySetState r ts), cache, h2)))"

text \<open>
  \<open>src/use-destructuring.ts\<close>: the loop of \<open>memoizeObject\<close> works on the cached \<open>Map\<close> itself
  and adds to it. \<open>Map.set\<close> is \<open>AList.update\<close>: it replaces the value of a key already there
  and adds a new key last.
\<close>

fun memoizeObject_ud_loop ::
    "ref \<Rightarrow> jsstring list \<Rightarrow> ObjectCache \<Rightarrow> (jsstring \<times> closure) list \<Rightarrow> heap
      \<Rightarrow> (error + (jsstring \<times> closure) list) \<times> ObjectCache \<times> heap" where
  "memoizeObject_ud_loop setState [] m setMethods h = (Inr setMethods, m, h)"
| "memoizeObject_ud_loop setState (key # keys) m setMethods h =
     (let (val, m1, h1) =
            (case map_of m key of
               Some v \<Rightarrow> (v, m, h)
             | None \<Rightarrow> (let (v, h') = createObjectPropertySetState setState key h
                        in (v, AList.update key v m, h')))
      in case capitalize key of
           Inl e \<Rightarrow> (Inl e, m1, h1)
         | Inr name \<Rightarrow>
             memoizeObject_ud_loop setState keys m1
               (AList.update (utf16 ''set'' @ name) val setMethods) h1)"

definition memoizeObject_ud ::
    "ObjectCache \<Rightarrow> jsobject \<Rightarrow> ref \<Rightarrow> heap \<Rightarrow> (error + result) \<times> ObjectCache \<times> heap" where
  "memoizeObject_ud current state setState h =
     (let (r, h0) = alloc h
      in case memoizeObject_ud_loop setState (keysOf state) current [] h0 of
           (Inl e, m, h1) \<Rightarrow> (Inl e, m, h1)
         | (Inr setMethods, m, h1) \<Rightarrow> (Inr (ObjectSetState r setMethods), m, h1))"

text \<open>
  \<open>src/unnamed/part_000\<close>: the loop fills a new \<open>Map\<close> from the old one, and \<open>ref.current\<close>
  is assigned after the loop, so not when \<open>capitalize\<close> throws.
\<close>

fun memoizeObject_p0_loop ::
    "ObjectCache \<Rightarrow> ref \<Rightarrow> jsstring list \<Rightarrow> ObjectCache \<Rightarrow> (jsstring \<times> closure) list \<Rightarrow> heap
      \<Rightarrow> (error + ObjectCache \<times> (jsstring \<times> closure) list) \<times> heap" where
  "memoizeObject_p0_loop oldMap setState [] newMap setMethods h = (Inr (newMap, setMethods), h)"
| "memoizeObject_p0_loop oldMap setState (key # keys) newMap setMethods h =
     (let (val, h1) =
            (case map_of oldMap key of
               Some v \<Rightarrow> (v, h)
             | None \<Rightarrow> createObjectPropertySetState setState key h)
      in case capitalize key of
           Inl e \<Rightarrow> (Inl e, h1)
         | Inr name \<Rightarrow>
             memoizeObject_p0_loop oldMap setState keys (AList.update key val newMap)
               (AList.update (utf16 ''set'' @ name) val setMethods) h1)"

definition memoizeObject_p0 ::
    "ObjectCache \<Rightarrow> jsobject \<Rightarrow> ref \<Rightarrow> heap \<Rightarrow> (error + result) \<times> ObjectCache \<times> heap" where
  "memoizeObject_p0 current state setState h =
     (let oldMap = current;
          (r, h0) = alloc h
      in case memoizeObject_p0_loop oldMap setState (keysOf state) [] [] h0 of
           (Inl e, h1) \<Rightarrow> (Inl e, oldMap, h1)
         | (Inr (newMap, setMethods), h1) \<Rightarrow> (Inr (ObjectSetState r setMethods), newMap, h1))"

section \<open>The hook\<close>

text \<open>
  React's \<open>useRef\<close> and \<open>useMemo\<close> are not part of the repository; they are modelled as React
  documents them. The hook state of one call site is the ref's cell (\<open>None\<close> before the first
  render) and the last dependencies and value of \<open>useMemo\<close>. \<open>useRef\<close> uses its argument on the
  first render only. \<open>useMemo\<close> compares the dependencies with \<open>Object.is\<close>, calls the factory
  when one differs, and stores nothing when the factory throws.
\<close>

datatype dep = DepRef ref | DepNumber int

record hooks =
  setStateRef :: "cache option"
  memoized :: "(dep list \<times> result) option"

definition useRef :: "cache option \<Rightarrow> cache \<Rightarrow> cache" where
  "useRef cell initialValue = (case cell of None \<Rightarrow> initialValue | Some current \<Rightarrow> current)"

definition objectIs :: "dep \<Rightarrow> dep \<Rightarrow> bool" where
  "objectIs a b = (a = b)"

definition areHookInputsEqual :: "dep list \<Rightarrow> dep list \<Rightarrow> bool" where
  "areHookInputsEqual nextDeps prevDeps = list_all2 objectIs nextDeps prevDeps"

definition useMemo ::
    "(dep list \<times> result) option \<Rightarrow> ('s \<Rightarrow> (error + result) \<times> 's) \<Rightarrow> dep list \<Rightarrow> 's
      \<Rightarrow> (error + result) \<times> (dep list \<times> result) option \<times> 's" where
  "useMemo memo factory deps s =
     (let compute = (case factory s of
                       (Inl e, s') \<Rightarrow> (Inl e, memo, s')
                     | (Inr v, s') \<Rightarrow> (Inr v, Some (deps, v), s'))
      in case memo of
           None \<Rightarrow> compute
         | Some (prevDeps, v) \<Rightarrow>
             if areHookInputsEqual deps prevDeps then (Inr v, memo, s) else compute)"

text \<open>
  The body of \<open>useDestucturing\<close> is the same in both files up to the \<open>memoizeObject\<close> it calls,
  which is a parameter here. After the guard, \<open>state\<close> is an array or an object; the two cases of
  \<open>isArr\<close> are the two first branches of the case distinction, and the third branch is never
  reached. A cell that \<open>narrowRef\<close> left with the wrong kind of cache would make the cast a lie
  and the access to the cache fail; this is the \<open>TypeError\<close> branch.
\<close>

definition useDestucturing_body ::
    "(ObjectCache \<Rightarrow> jsobject \<Rightarrow> ref \<Rightarrow> heap \<Rightarrow> (error + result) \<times> ObjectCache \<times> heap)
      \<Rightarrow> hooks \<Rightarrow> jsval \<Rightarrow> ref \<Rightarrow> heap \<Rightarrow> (error + result) \<times> hooks \<times> heap" where
  "useDestucturing_body memoizeObject hk state setState h =
     (if \<not> isObjectOrArray state then (Inl ErrorNotObjectOrArray, hk, h)
      else case state of
        VArray array \<Rightarrow>
          (let cell = useRef (setStateRef hk) (ArrayCache []);
               (res, memo, cell', h') =
                 useMemo (memoized hk)
                   (\<lambda>(cell, h).
                      case narrowRef cell isArrayCache (ArrayCache []) of
                        ArrayCache current \<Rightarrow>
                          (case memoizeArray current array setState h of
                             (res, cache, h') \<Rightarrow> (res, ArrayCache cache, h'))
                      | ObjectCache m \<Rightarrow> (Inl TypeError, ObjectCache m, h))
                   [DepRef setState, DepRef (fst array)] (cell, h)
           in (res, \<lparr>setStateRef = Some cell', memoized = memo\<rparr>, h'))
      | VObject object \<Rightarrow>
          (let cell = useRef (setStateRef hk) (ObjectCache []);
               (res, memo, cell', h') =
                 useMemo (memoized hk)
                   (\<lambda>(cell, h).
                      case narrowRef cell isObjectCache (ObjectCache []) of
                        ObjectCache current \<Rightarrow>
                          (case memoizeObject current object setState h of
                             (res, m, h') \<Rightarrow> (res, ObjectCache m, h'))
                      | ArrayCache c \<Rightarrow> (Inl TypeError, ArrayCache c, h))
                   [DepRef setState, DepNumber (hashStrings (keysOf object))] (cell, h)
           in (res, \<lparr>setStateRef = Some cell', memoized = memo\<rparr>, h'))
      | _ \<Rightarrow> (Inl ErrorNotObjectOrArray, hk, h))"

definition useDestucturing_ud :: "hooks \<Rightarrow> jsval \<Rightarrow> ref \<Rightarrow> heap \<Rightarrow> (error + result) \<times> hooks \<times> heap" where
  "useDestucturing_ud = useDestucturing_body memoizeObject_ud"

definition useDestucturing_p0 :: "hooks \<Rightarrow> jsval \<Rightarrow> ref \<Rightarrow> heap \<Rightarrow> (error + result) \<times> hooks \<times> heap" where
  "useDestucturing_p0 = useDestucturing_body memoizeObject_p0"

text \<open>
  What \<open>narrowRef(setStateRef, ...).current\<close> is on a render, for each of the two paths: the
  cached list or map of the previous render, or an empty one on the first render and after the
  state changed from an object to an array or back.
\<close>

definition currentArrayCache :: "hooks \<Rightarrow> ArrayCache" where
  "currentArrayCache hk =
     (case narrowRef (useRef (setStateRef hk) (ArrayCache [])) isArrayCache (ArrayCache []) of
        ArrayCache current \<Rightarrow> current
      | ObjectCache _ \<Rightarrow> [])"

definition currentObjectCache :: "hooks \<Rightarrow> ObjectCache" where
  "currentObjectCache hk =
     (case narrowRef (useRef (setStateRef hk) (ObjectCache [])) isObjectCache (ObjectCache []) of
        ObjectCache current \<Rightarrow> current
      | ArrayCache _ \<Rightarrow> [])"

text \<open>
  What the host does with a call of its setter, as React documents it: the action is resolved
  against the current state.
\<close>

definition applySetStateCall :: "'a setStateCall \<Rightarrow> 'a \<Rightarrow> heap \<Rightarrow> 'a \<times> heap" where
  "applySetStateCall c current h =
     (case c of SetStateCall setter action \<Rightarrow> evaluateSetStateAction action current h)"

text \<open>The hook state of a call site before its first render.\<close>

definition mount :: hooks where
  "mount = \<lparr>setStateRef = None, memoized = None\<rparr>"

section \<open>The per-string hash and the fingerprint\<close>

lemma combine_less:
  "4294967296 * uint (2097151 AND (a :: 32 word)) + uint (b :: 32 word) < 9007199254740992"
proof -
  have "2097151 AND a \<le> 2097151" by (rule word_and_le2)
  then have "uint (2097151 AND a) \<le> 2097151" by (simp add: word_le_def)
  moreover have "uint b < 4294967296" using uint_bounded[of b] by simp
  ultimately show ?thesis by simp
qed

lemma hashString_combines:
  "\<exists>(h1 :: 32 word) (h2 :: 32 word). hashString str seed = 4294967296 * uint (2097151 AND h2) + uint h1"
proof -
  obtain a b
    where l: "hashString_loop str (0xdeadbeef XOR word_of_int seed, 0x41c6ce57 XOR word_of_int seed)
                = (a, b)"
    by (cases "hashString_loop str (0xdeadbeef XOR word_of_int seed, 0x41c6ce57 XOR word_of_int seed)")
  show ?thesis
    unfolding hashString_def Let_def l split_conv
    by (intro exI) (rule refl)
qed

text \<open>
  C10. For every string and seed, \<open>hashString\<close> returns a non-negative integer below \<open>2^53\<close>,
  of the form \<open>4294967296 * (h2 & 2097151) + (h1 >>> 0)\<close> for two 32-bit values \<open>h1\<close>, \<open>h2\<close>.
  Being a function of the string and the seed, it is deterministic.
\<close>

theorem hashString_digest:
  "0 \<le> hashString str seed \<and> hashString str seed < 2 ^ 53 \<and>
   (\<exists>(h1 :: 32 word) (h2 :: 32 word). hashString str seed = 4294967296 * uint (2097151 AND h2) + uint h1)"
proof -
  obtain h1 :: "32 word" and h2 :: "32 word"
    where eq: "hashString str seed = 4294967296 * uint (2097151 AND h2) + uint h1"
    using hashString_combines by blast
  have "4294967296 * uint (2097151 AND h2) + uint h1 < 9007199254740992"
    by (rule combine_less)
  then have lt: "hashString str seed < 2 ^ 53"
    by (simp only: eq) simp
  have "0 \<le> 4294967296 * uint (2097151 AND h2) + uint h1"
    by simp
  then have ge: "0 \<le> hashString str seed"
    by (simp only: eq)
  from ge lt hashString_combines[of str seed] show ?thesis
    by (intro conjI)
qed

theorem hashString_digest_witness:
  "hashString (utf16 ''a'') 0 = 7929297801672961 \<and> hashString (utf16 ''a'') 0 < 2 ^ 53"
  using hashString_digest[of "utf16 ''a''" 0]
  by (simp add: hashString_def utf16_def imul_def)

lemma bitxor_foldl:
  "foldl bitxor (sint (w :: 32 word)) xs = sint (foldl (\<lambda>a b. a XOR word_of_int b) w xs)"
  by (induction xs arbitrary: w) (simp_all add: bitxor_def)

lemma hashStrings_word:
  "hashStrings str = sint (fold (\<lambda>s a. a XOR (word_of_int (hashString s 0) :: 32 word)) str 0)"
proof -
  have "foldl bitxor (sint (0 :: 32 word)) (map (\<lambda>s. hashString s 0) str) =
        sint (foldl (\<lambda>a b. a XOR word_of_int b) (0 :: 32 word) (map (\<lambda>s. hashString s 0) str))"
    by (rule bitxor_foldl)
  then show ?thesis by (simp add: hashStrings_def foldl_conv_fold fold_map comp_def)
qed

lemma hashStrings_perm: "mset str = mset str' \<Longrightarrow> hashStrings str = hashStrings str'"
  unfolding hashStrings_word
  by (rule arg_cong[where f = "\<lambda>f. sint (f 0)"], rule fold_multiset_equiv)
     (auto simp: fun_eq_iff ac_simps)

text \<open>
  C9. The fingerprint of a list of keys does not depend on their order: two lists with the same
  elements the same number of times have the same \<open>hashStrings\<close>. The fingerprints of
  \<open>["a", "b"]\<close> and \<open>["b", "a"]\<close> are equal, and those of \<open>["a", "b"]\<close> and \<open>["a", "c"]\<close>
  differ.
\<close>

theorem hashStrings_commutative:
  "(\<forall>str str'. mset str = mset str' \<longrightarrow> hashStrings str = hashStrings str') \<and>
   hashStrings [utf16 ''a'', utf16 ''b''] = hashStrings [utf16 ''b'', utf16 ''a''] \<and>
   hashStrings [utf16 ''a'', utf16 ''b''] \<noteq> hashStrings [utf16 ''a'', utf16 ''c'']"
proof (intro conjI allI impI)
  fix str str' :: "jsstring list"
  assume "mset str = mset str'"
  then show "hashStrings str = hashStrings str'"
    by (rule hashStrings_perm)
next
  show "hashStrings [utf16 ''a'', utf16 ''b''] = hashStrings [utf16 ''b'', utf16 ''a'']"
    by (rule hashStrings_perm) simp
next
  show "hashStrings [utf16 ''a'', utf16 ''b''] \<noteq> hashStrings [utf16 ''a'', utf16 ''c'']"
    by (simp add: hashStrings_def hashString_def utf16_def imul_def bitxor_def)
qed

theorem hashStrings_commutative_witness:
  "mset [utf16 ''x'', utf16 ''y'', utf16 ''z''] = mset [utf16 ''z'', utf16 ''x'', utf16 ''y''] \<and>
   hashStrings [utf16 ''x'', utf16 ''y'', utf16 ''z''] =
     hashStrings [utf16 ''z'', utf16 ''x'', utf16 ''y'']"
proof -
  have m: "mset [utf16 ''x'', utf16 ''y'', utf16 ''z''] =
           mset [utf16 ''z'', utf16 ''x'', utf16 ''y'']"
    by simp
  from hashStrings_commutative
  have "mset [utf16 ''x'', utf16 ''y'', utf16 ''z''] = mset [utf16 ''z'', utf16 ''x'', utf16 ''y'']
        \<longrightarrow> hashStrings [utf16 ''x'', utf16 ''y'', utf16 ''z''] =
            hashStrings [utf16 ''z'', utf16 ''x'', utf16 ''y'']"
    by blast
  with m show ?thesis by blast
qed

section \<open>The remover\<close>

lemma filter_index_from:
  "map fst (filter (\<lambda>(_, j). j \<noteq> p) (zip xs [k..<k + length xs])) =
     (if k \<le> p then take (p - k) xs @ drop (Suc (p - k)) xs else xs)"
proof (induction xs arbitrary: k)
  case Nil
  then show ?case by simp
next
  case (Cons x xs)
  have upt: "[m..<Suc (m + length xs)] = m # [Suc m..<Suc (m + length xs)]" for m
    by (subst upt_rec) (simp del: upt_Suc)
  show ?case
  proof (cases "k \<le> p")
    case False
    then show ?thesis using Cons.IH[of "Suc k"] by (simp del: upt_Suc add: upt)
  next
    case True
    show ?thesis
    proof (cases "k = p")
      case True
      then show ?thesis using Cons.IH[of "Suc k"] by (simp del: upt_Suc add: upt)
    next
      case False
      with True have lt: "Suc k \<le> p" by simp
      then have "p - k = Suc (p - Suc k)" by simp
      then show ?thesis using Cons.IH[of "Suc k"] lt False by (simp del: upt_Suc add: upt)
    qed
  qed
qed

lemma filter_index:
  "map fst (filter (\<lambda>(_, j). j \<noteq> p) (zip xs [0..<length xs])) = take p xs @ drop (Suc p) xs"
  using filter_index_from[of p xs 0] by simp

lemma nth_without:
  "i < length (take p xs @ drop (Suc p) xs) \<Longrightarrow>
   (take p xs @ drop (Suc p) xs) ! i = xs ! (if i < p then i else Suc i)"
  by (auto simp: nth_append min_def)

lemma filter_present_index:
  "map fst (filter (\<lambda>(x, j). x \<noteq> None \<and> j \<noteq> p) (zip xs [0..<length xs])) =
     filter (\<lambda>x. x \<noteq> None) (take p xs @ drop (Suc p) xs)"
proof -
  have "filter (\<lambda>(x, j). x \<noteq> None \<and> j \<noteq> p) (zip xs [0..<length xs]) =
        filter (\<lambda>q. fst q \<noteq> None) (filter (\<lambda>(_, j). j \<noteq> p) (zip xs [0..<length xs]))"
    by (simp add: split_def conj_commute)
  then have "map fst (filter (\<lambda>(x, j). x \<noteq> None \<and> j \<noteq> p) (zip xs [0..<length xs])) =
        filter (\<lambda>x. x \<noteq> None) (map fst (filter (\<lambda>(_, j). j \<noteq> p) (zip xs [0..<length xs])))"
    by (simp add: filter_map comp_def)
  then show ?thesis by (simp only: filter_index)
qed

lemma filter_no_holes:
  assumes "None \<notin> set xs"
  shows "filter (\<lambda>x. x \<noteq> None) xs = xs"
proof (rule filter_True, rule ballI)
  fix x assume x: "x \<in> set xs"
  show "x \<noteq> None"
  proof
    assume "x = None"
    with x assms show False by simp
  qed
qed

lemma remover_dense:
  assumes "None \<notin> set xs"
  shows "filter (\<lambda>x. x \<noteq> None) (take p xs @ drop (Suc p) xs) = take p xs @ drop (Suc p) xs"
proof -
  have "set (take p xs @ drop (Suc p) xs) \<subseteq> set xs"
    using set_take_subset[of p xs] set_drop_subset[of "Suc p" xs] by auto
  with assms have "None \<notin> set (take p xs @ drop (Suc p) xs)" by blast
  then show ?thesis by (rule filter_no_holes)
qed

lemma remover_updater:
  "\<exists>f. callDeleteAction setArray p = SetStateCall setArray (Updater f) \<and>
       (\<forall>r xs h. f (r, xs) h =
          ((h, filter (\<lambda>x. x \<noteq> None) (take p xs @ drop (Suc p) xs)), Suc h))"
  unfolding callDeleteAction_def
  by (rule exI, rule conjI, rule refl)
     (simp only: filter_present_index alloc_def Let_def split_conv snd_conv, simp)

text \<open>
  C5, as amended. Calling the remover bound to position \<open>p\<close> calls the setter with an updater.
  Applied to any array, the updater returns a new array that holds the elements at the positions
  other than \<open>p\<close>, in their order, holes left out. When the array has no holes, these are the
  elements before \<open>p\<close>, then those after it: the result is one element shorter when \<open>p\<close> is a
  valid index, and has the same elements otherwise.
\<close>

theorem remover_excludes_position:
  "\<exists>f. callDeleteAction setArray p = SetStateCall setArray (Updater f) \<and>
       (\<forall>r xs h. \<exists>ys.
          f (r, xs) h = ((h, ys), Suc h) \<and>
          ys = filter (\<lambda>x. x \<noteq> None) (take p xs @ drop (Suc p) xs) \<and>
          (None \<notin> set xs \<longrightarrow>
             ys = take p xs @ drop (Suc p) xs \<and>
             (\<forall>i < length ys. ys ! i = xs ! (if i < p then i else Suc i)) \<and>
             (p < length xs \<longrightarrow> length ys = length xs - 1) \<and>
             (\<not> p < length xs \<longrightarrow> ys = xs)))"
proof -
  from remover_updater[of setArray p] obtain f
    where c: "callDeleteAction setArray p = SetStateCall setArray (Updater f)"
      and a: "\<And>r xs h. f (r, xs) h =
                ((h, filter (\<lambda>x. x \<noteq> None) (take p xs @ drop (Suc p) xs)), Suc h)"
    by blast
  have "\<exists>ys. f (r, xs) h = ((h, ys), Suc h) \<and>
          ys = filter (\<lambda>x. x \<noteq> None) (take p xs @ drop (Suc p) xs) \<and>
          (None \<notin> set xs \<longrightarrow>
             ys = take p xs @ drop (Suc p) xs \<and>
             (\<forall>i < length ys. ys ! i = xs ! (if i < p then i else Suc i)) \<and>
             (p < length xs \<longrightarrow> length ys = length xs - 1) \<and>
             (\<not> p < length xs \<longrightarrow> ys = xs))" for r xs h
  proof (intro exI conjI impI)
    show "f (r, xs) h = ((h, filter (\<lambda>x. x \<noteq> None) (take p xs @ drop (Suc p) xs)), Suc h)"
      by (rule a)
    show "filter (\<lambda>x. x \<noteq> None) (take p xs @ drop (Suc p) xs) =
          filter (\<lambda>x. x \<noteq> None) (take p xs @ drop (Suc p) xs)"
      by (rule refl)
  next
    assume d: "None \<notin> set xs"
    show e: "filter (\<lambda>x. x \<noteq> None) (take p xs @ drop (Suc p) xs) = take p xs @ drop (Suc p) xs"
      using d by (rule remover_dense)
    show "\<forall>i < length (filter (\<lambda>x. x \<noteq> None) (take p xs @ drop (Suc p) xs)).
            filter (\<lambda>x. x \<noteq> None) (take p xs @ drop (Suc p) xs) ! i =
            xs ! (if i < p then i else Suc i)"
      unfolding e by (intro allI impI) (rule nth_without)
    show "length (filter (\<lambda>x. x \<noteq> None) (take p xs @ drop (Suc p) xs)) = length xs - 1"
      if "p < length xs"
      unfolding e using that by simp
    show "filter (\<lambda>x. x \<noteq> None) (take p xs @ drop (Suc p) xs) = xs"
      if "\<not> p < length xs"
      unfolding e using that by simp
  qed
  with c show ?thesis by blast
qed

theorem remover_excludes_position_witness:
  "\<exists>f. callDeleteAction 7 1 = SetStateCall 7 (Updater f) \<and>
       None \<notin> set [Some (VString (utf16 ''a'')), Some (VString (utf16 ''b'')),
                   Some (VString (utf16 ''c''))] \<and>
       (1::nat) < length [Some (VString (utf16 ''a'')), Some (VString (utf16 ''b'')),
                          Some (VString (utf16 ''c''))] \<and>
       f (0, [Some (VString (utf16 ''a'')), Some (VString (utf16 ''b'')),
              Some (VString (utf16 ''c''))]) 1 =
         ((1, [Some (VString (utf16 ''a'')), Some (VString (utf16 ''c''))]), 2)"
proof -
  have d: "None \<notin> set [Some (VString (utf16 ''a'')), Some (VString (utf16 ''b'')),
                        Some (VString (utf16 ''c''))]"
    by simp
  from remover_excludes_position[of 7 1] obtain f
    where c: "callDeleteAction 7 1 = SetStateCall 7 (Updater f)"
      and a: "\<forall>r xs h. \<exists>ys. f (r, xs) h = ((h, ys), Suc h) \<and>
          ys = filter (\<lambda>x. x \<noteq> None) (take 1 xs @ drop (Suc 1) xs) \<and>
          (None \<notin> set xs \<longrightarrow>
             ys = take 1 xs @ drop (Suc 1) xs \<and>
             (\<forall>i < length ys. ys ! i = xs ! (if i < 1 then i else Suc i)) \<and>
             (1 < length xs \<longrightarrow> length ys = length xs - 1) \<and>
             (\<not> 1 < length xs \<longrightarrow> ys = xs))"
    by (elim exE conjE)
  from a[THEN spec, THEN spec, THEN spec,
         of 0 "[Some (VString (utf16 ''a'')), Some (VString (utf16 ''b'')),
                Some (VString (utf16 ''c''))]" 1]
  obtain ys where
    f: "f (0, [Some (VString (utf16 ''a'')), Some (VString (utf16 ''b'')),
               Some (VString (utf16 ''c''))]) 1 = ((1, ys), Suc 1)" and
    y: "None \<notin> set [Some (VString (utf16 ''a'')), Some (VString (utf16 ''b'')),
                     Some (VString (utf16 ''c''))] \<longrightarrow>
        ys = take 1 [Some (VString (utf16 ''a'')), Some (VString (utf16 ''b'')),
                     Some (VString (utf16 ''c''))] @
             drop (Suc 1) [Some (VString (utf16 ''a'')), Some (VString (utf16 ''b'')),
                           Some (VString (utf16 ''c''))] \<and>
             (\<forall>i < length ys. ys ! i = [Some (VString (utf16 ''a'')), Some (VString (utf16 ''b'')),
                     Some (VString (utf16 ''c''))] ! (if i < 1 then i else Suc i)) \<and>
             (1 < length [Some (VString (utf16 ''a'')), Some (VString (utf16 ''b'')),
                     Some (VString (utf16 ''c''))] \<longrightarrow> length ys = length [Some (VString (utf16 ''a'')), Some (VString (utf16 ''b'')),
                     Some (VString (utf16 ''c''))] - 1) \<and>
             (\<not> 1 < length [Some (VString (utf16 ''a'')), Some (VString (utf16 ''b'')),
                     Some (VString (utf16 ''c''))] \<longrightarrow> ys = [Some (VString (utf16 ''a'')), Some (VString (utf16 ''b'')),
                     Some (VString (utf16 ''c''))])"
    by (elim exE conjE)
  from y[THEN mp, OF d, THEN conjunct1]
  have "ys = [Some (VString (utf16 ''a'')), Some (VString (utf16 ''c''))]"
    by simp
  with f have "f (0, [Some (VString (utf16 ''a'')), Some (VString (utf16 ''b'')),
              Some (VString (utf16 ''c''))]) 1 =
         ((1, [Some (VString (utf16 ''a'')), Some (VString (utf16 ''c''))]), 2)"
    by simp
  with c d show ?thesis by (intro exI[of _ f] conjI) simp_all
qed

text \<open>
  C5, as stated, fails on an array with holes. The element setter bound to position \<open>4\<close>,
  called with \<open>7\<close> on \<open>[1, 2]\<close>, writes past the end and leaves two holes. On the array it
  returns, of length \<open>5\<close>, the remover bound to the valid position \<open>0\<close> returns \<open>[2, 7]\<close>,
  of length \<open>2\<close>.
\<close>

theorem remover_drops_holes:
  "applySetStateCall (callArrayElementSetState_p0 9 4 (Value (VNumber 7)))
      (20, [Some (VNumber 1), Some (VNumber 2)]) 30 =
     ((30, [Some (VNumber 1), Some (VNumber 2), None, None, Some (VNumber 7)]), 31) \<and>
   (0::nat) < length [Some (VNumber 1), Some (VNumber 2), None, None, Some (VNumber 7)] \<and>
   applySetStateCall (callDeleteAction 9 0)
      (30, [Some (VNumber 1), Some (VNumber 2), None, None, Some (VNumber 7)]) 31 =
     ((31, [Some (VNumber 2), Some (VNumber 7)]), 32) \<and>
   length [Some (VNumber 2), Some (VNumber 7)] \<noteq>
     length [Some (VNumber 1), Some (VNumber 2), None, None, Some (VNumber 7)] - 1"
proof -
  have upt: "[0..<5] = [0, 1, 2, 3, 4]"
    by (simp add: upt_rec)
  have a: "applySetStateCall (callArrayElementSetState_p0 9 4 (Value (VNumber 7)))
      (20, [Some (VNumber 1), Some (VNumber 2)]) 30 =
     ((30, [Some (VNumber 1), Some (VNumber 2), None, None, Some (VNumber 7)]), 31)"
    by (simp add: applySetStateCall_def callArrayElementSetState_p0_def evaluateSetStateAction_def
        replaceAtIndex_p0_def element_at_def strict_eq_def alloc_def assign_index_def spread_def
        numeral_eq_Suc)
  have b: "applySetStateCall (callDeleteAction 9 0)
      (30, [Some (VNumber 1), Some (VNumber 2), None, None, Some (VNumber 7)]) 31 =
     ((31, [Some (VNumber 2), Some (VNumber 7)]), 32)"
    by (simp add: applySetStateCall_def callDeleteAction_def evaluateSetStateAction_def
        alloc_def upt)
  from a b show ?thesis by simp
qed

section \<open>Facts about the setters\<close>

lemma keys_update: "fst ` set (AList.update k v ps) = insert k (fst ` set ps)"
proof -
  have "set (map fst (AList.update k v ps)) = insert k (set (map fst ps))"
    by (auto simp: update_keys)
  then show ?thesis by simp
qed

lemma element_at_assign_same: "element_at (assign_index (spread xs) i v) i = v"
  by (simp add: element_at_def assign_index_def spread_def nth_append)

lemma element_at_assign_other:
  "j \<noteq> i \<Longrightarrow> element_at (assign_index (spread xs) i v) j = element_at xs j"
  by (auto simp: element_at_def assign_index_def spread_def nth_append split: option.splits)

lemma length_assign_index: "length (assign_index (spread xs) i v) = max (length xs) (Suc i)"
  by (simp add: assign_index_def spread_def)

lemma property_at_update_same: "property_at inherited (AList.update k v ps) k = v"
  by (simp add: property_at_def update_conv')

lemma map_of_update_other: "k' \<noteq> k \<Longrightarrow> map_of (AList.update k v ps) k' = map_of ps k'"
  by (simp add: update_conv')

lemma replaceAtIndex_ud_eq:
  "replaceAtIndex_ud (r, xs) i v h = ((h, assign_index (spread xs) i v), Suc h)"
  by (simp add: replaceAtIndex_ud_def alloc_def)

lemma replaceAtIndex_p0_same:
  "strict_eq (element_at xs i) v \<Longrightarrow> replaceAtIndex_p0 (r, xs) i v h = ((r, xs), h)"
  by (simp add: replaceAtIndex_p0_def)

lemma replaceAtIndex_p0_differs:
  "\<not> strict_eq (element_at xs i) v \<Longrightarrow>
   replaceAtIndex_p0 (r, xs) i v h = ((h, assign_index (spread xs) i v), Suc h)"
  by (simp add: replaceAtIndex_p0_def alloc_def)

lemma array_setter_p0_differs:
  "\<exists>f. callArrayElementSetState_p0 setArray p a = SetStateCall setArray (Updater f) \<and>
       (\<forall>r xs h v h1.
          evaluateSetStateAction a (element_at xs p) h = (v, h1) \<longrightarrow>
          \<not> strict_eq (element_at xs p) v \<longrightarrow>
          f (r, xs) h = ((h1, assign_index (spread xs) p v), Suc h1))"
  unfolding callArrayElementSetState_p0_def
  by (rule exI, rule conjI, rule refl) (simp add: replaceAtIndex_p0_differs)

lemma array_setter_p0_same:
  "\<exists>f. callArrayElementSetState_p0 setArray p a = SetStateCall setArray (Updater f) \<and>
       (\<forall>r xs h v h1.
          evaluateSetStateAction a (element_at xs p) h = (v, h1) \<longrightarrow>
          strict_eq (element_at xs p) v \<longrightarrow>
          f (r, xs) h = ((r, xs), h1))"
  unfolding callArrayElementSetState_p0_def
  by (rule exI, rule conjI, rule refl) (simp add: replaceAtIndex_p0_same)

lemma array_setter_ud_always:
  "\<exists>f. callArrayElementSetState_ud setArray p a = SetStateCall setArray (Updater f) \<and>
       (\<forall>r xs h v h1.
          evaluateSetStateAction a (element_at xs p) h = (v, h1) \<longrightarrow>
          f (r, xs) h = ((h1, assign_index (spread xs) p v), Suc h1))"
  unfolding callArrayElementSetState_ud_def
  by (rule exI, rule conjI, rule refl) (simp add: replaceAtIndex_ud_eq)

lemma object_setter_p0_differs:
  "\<exists>f. callObjectPropertySetState_p0 inherited setObject k a = SetStateCall setObject (Updater f) \<and>
       (\<forall>r ps h v h1.
          evaluateSetStateAction a (property_at inherited ps k) h = (v, h1) \<longrightarrow>
          \<not> strict_eq (property_at inherited ps k) v \<longrightarrow>
          f (r, ps) h = ((h1, AList.update k v ps), Suc h1))"
  unfolding callObjectPropertySetState_p0_def
  by (rule exI, rule conjI, rule refl) (simp add: alloc_def)

lemma object_setter_p0_same:
  "\<exists>f. callObjectPropertySetState_p0 inherited setObject k a = SetStateCall setObject (Updater f) \<and>
       (\<forall>r ps h v h1.
          evaluateSetStateAction a (property_at inherited ps k) h = (v, h1) \<longrightarrow>
          strict_eq (property_at inherited ps k) v \<longrightarrow>
          f (r, ps) h = ((r, ps), h1))"
  unfolding callObjectPropertySetState_p0_def
  by (rule exI, rule conjI, rule refl) (simp add: alloc_def)

lemma object_setter_ud_always:
  "\<exists>f. callObjectPropertySetState_ud inherited setObject k a = SetStateCall setObject (Updater f) \<and>
       (\<forall>r ps h v h2.
          evaluateSetStateAction a (property_at inherited ps k) (Suc h) = (v, h2) \<longrightarrow>
          f (r, ps) h = ((h, AList.update k v ps), h2))"
  unfolding callObjectPropertySetState_ud_def
  by (rule exI, rule conjI, rule refl) (simp add: alloc_def)

section \<open>Facts about the array cache\<close>

lemma map_alloc_length: "length (fst (map_alloc f is h)) = length is"
  by (induction "is" arbitrary: h) (simp_all add: split_def Let_def)

lemma map_alloc_pairs:
  "map_alloc (\<lambda>i h. (g i h, Suc (Suc h))) is h =
     (map (\<lambda>j. g (is ! j) (h + 2 * j)) [0..<length is], h + 2 * length is)"
proof (induction "is" arbitrary: h)
  case Nil
  then show ?case by simp
next
  case (Cons i "is")
  have "[0..<length (i # is)] = 0 # map Suc [0..<length is]"
    by (simp add: upt_conv_Cons map_Suc_upt del: upt_Suc)
  then have "map (\<lambda>j. g ((i # is) ! j) (h + 2 * j)) [0..<length (i # is)] =
        g i h # map (\<lambda>j. g (is ! j) (Suc (Suc h) + 2 * j)) [0..<length is]"
    by (simp add: comp_def del: upt_Suc)
  then show ?case using Cons.IH[of "Suc (Suc h)"] by (simp del: upt_Suc)
qed

lemma factory_eq:
  "(let (s, ha) = createArrayElementSetState setArray i h;
        (d, hb) = createDeleteAction setArray i ha
    in ((s, d), hb)) =
   ((ArrayElementSetState h setArray i, DeleteAction (Suc h) setArray i), Suc (Suc h))"
  by (simp add: createArrayElementSetState_def createDeleteAction_def alloc_def)

lemma append_new_eq:
  "append_new m (int n - int m)
     (\<lambda>i h. let (s, ha) = createArrayElementSetState setArray i h;
                 (d, hb) = createDeleteAction setArray i ha
             in ((s, d), hb)) h =
   (map (\<lambda>p. (ArrayElementSetState (h + 2 * (p - m)) setArray p,
               DeleteAction (Suc (h + 2 * (p - m))) setArray p)) [m..<n],
    h + 2 * (n - m))"
proof (cases "int n - int m < 1")
  case True
  then show ?thesis by (simp add: append_new_def)
next
  case False
  then have mn: "m < n" by simp
  have nat: "nat (int n - int m) = n - m" by simp
  have "map_alloc (\<lambda>i h. ((ArrayElementSetState h setArray (m + i), DeleteAction (Suc h) setArray (m + i)), Suc (Suc h)))
          [0..<n - m] h =
        (map (\<lambda>j. (ArrayElementSetState (h + 2 * j) setArray (m + ([0..<n - m] ! j)),
                    DeleteAction (Suc (h + 2 * j)) setArray (m + ([0..<n - m] ! j))))
           [0..<length [0..<n - m]], h + 2 * length [0..<n - m])"
    by (rule map_alloc_pairs)
  also have "\<dots> = (map (\<lambda>p. (ArrayElementSetState (h + 2 * (p - m)) setArray p,
               DeleteAction (Suc (h + 2 * (p - m))) setArray p)) [m..<n], h + 2 * (n - m))"
    using mn by (auto simp: list_eq_iff_nth_eq)
  finally show ?thesis using False unfolding append_new_def factory_eq by (simp add: nat)
qed

lemma zip_cache_ok:
  "i + length ss = length cache \<Longrightarrow>
   zip_cache ss i cache =
     Inr (map (\<lambda>(s, c). map_option (\<lambda>v. (v, fst c, snd c)) s) (zip ss (drop i cache)))"
proof (induction ss arbitrary: i)
  case Nil
  then show ?case by simp
next
  case (Cons s ss)
  then have lt: "i < length cache" by simp
  from Cons.prems have "Suc i + length ss = length cache" by simp
  then have ih: "zip_cache ss (Suc i) cache =
      Inr (map (\<lambda>(s, c). map_option (\<lambda>v. (v, fst c, snd c)) s) (zip ss (drop (Suc i) cache)))"
    by (rule Cons.IH)
  have d: "drop i cache = cache ! i # drop (Suc i) cache"
    using lt by (simp add: Cons_nth_drop_Suc)
  show ?case
  proof (cases s)
    case None
    then show ?thesis using ih by (simp add: d)
  next
    case (Some v)
    then show ?thesis using lt ih by (simp add: d)
  qed
qed

lemma memoizeArray_same_length:
  assumes "length cache = length xs"
  shows "memoizeArray cache (r, xs) setArray h =
           (Inr (ArraySetState h (map (\<lambda>(s, c). map_option (\<lambda>v. (v, fst c, snd c)) s) (zip xs cache))), cache, Suc h)"
  using assms zip_cache_ok[of 0 xs cache]
  by (simp add: memoizeArray_def alloc_def)

lemma memoizeArray_other_length:
  fixes h :: heap and setArray :: ref
  assumes "length cache \<noteq> length xs"
  defines "cache' \<equiv> take (min (length cache) (length xs)) cache @
                      map (\<lambda>p. (ArrayElementSetState (h + 2 * (p - length cache)) setArray p,
                                 DeleteAction (Suc (h + 2 * (p - length cache))) setArray p))
                        [length cache..<length xs]"
  shows "memoizeArray cache (r, xs) setArray h =
           (Inr (ArraySetState (h + 2 * (length xs - length cache))
                   (map (\<lambda>(s, c). map_option (\<lambda>v. (v, fst c, snd c)) s) (zip xs cache'))),
            cache', Suc (h + 2 * (length xs - length cache)))"
proof -
  have lim: "limit cache (length xs) = take (min (length cache) (length xs)) cache"
    by (simp add: limit_def min_def)
  have len: "length cache' = length xs"
    by (simp add: cache'_def)
  then have z: "zip_cache xs 0 cache' = Inr (map (\<lambda>(s, c). map_option (\<lambda>v. (v, fst c, snd c)) s) (zip xs cache'))"
    using zip_cache_ok[of 0 xs cache'] by simp
  show ?thesis
    using assms(1) z
    unfolding memoizeArray_def append_new_eq
    by (simp add: lim alloc_def cache'_def[symmetric])
qed

section \<open>Facts about the object cache\<close>

lemma capitalize_empty: "capitalize [] = Inl ErrorEmptyKey"
  by (simp add: capitalize_def)

lemma create_property_eq:
  "createObjectPropertySetState setObject key h = (ObjectPropertySetState h setObject key, Suc h)"
  by (simp add: createObjectPropertySetState_def alloc_def)

lemma p0_loop_empty_key:
  "\<exists>h'. memoizeObject_p0_loop oldMap s ([] # ks) nm sm h = (Inl ErrorEmptyKey, h')"
  by (simp add: capitalize_empty create_property_eq split: option.splits)

lemma p0_loop_next_key:
  "key \<noteq> [] \<Longrightarrow>
   memoizeObject_p0_loop oldMap s (key # ks) nm sm h =
     memoizeObject_p0_loop oldMap s ks
       (AList.update key (case map_of oldMap key of Some v \<Rightarrow> v
                          | None \<Rightarrow> ObjectPropertySetState h s key) nm)
       (AList.update (utf16 ''set'' @ toUpperCase (take 1 key) @ drop 1 key)
          (case map_of oldMap key of Some v \<Rightarrow> v | None \<Rightarrow> ObjectPropertySetState h s key) sm)
       (case map_of oldMap key of Some v \<Rightarrow> h | None \<Rightarrow> Suc h)"
  by (simp add: capitalize_def create_property_eq split: option.splits)

lemma p0_loop_error:
  "[] \<in> set ks \<Longrightarrow> \<exists>h'. memoizeObject_p0_loop oldMap s ks nm sm h = (Inl ErrorEmptyKey, h')"
proof (induction ks arbitrary: nm sm h)
  case Nil
  then show ?case by simp
next
  case (Cons k ks)
  show ?case
  proof (cases "k = []")
    case True
    then show ?thesis by (simp only: p0_loop_empty_key)
  next
    case False
    with Cons.prems have "[] \<in> set ks" by auto
    then show ?thesis by (simp only: p0_loop_next_key[OF False] Cons.IH)
  qed
qed

lemma p0_loop_success:
  "[] \<notin> set ks \<Longrightarrow> \<exists>nm' sm' h'. memoizeObject_p0_loop oldMap s ks nm sm h = (Inr (nm', sm'), h')"
proof (induction ks arbitrary: nm sm h)
  case Nil
  then show ?case by simp
next
  case (Cons k ks)
  then have k: "k \<noteq> []" and ks: "[] \<notin> set ks" by auto
  show ?case by (simp only: p0_loop_next_key[OF k] Cons.IH[OF ks])
qed


lemma p0_loop_result:
  "memoizeObject_p0_loop oldMap s ks nm sm h = (Inr (nm', sm'), h') \<Longrightarrow>
   h \<le> h' \<and>
   fst ` set nm' = fst ` set nm \<union> set ks \<and>
   (\<forall>k. k \<notin> set ks \<longrightarrow> map_of nm' k = map_of nm k) \<and>
   (\<forall>k c. k \<in> set ks \<longrightarrow> map_of oldMap k = Some c \<longrightarrow> map_of nm' k = Some c) \<and>
   (\<forall>k. k \<in> set ks \<longrightarrow> map_of oldMap k = None \<longrightarrow>
        (\<exists>r. h \<le> r \<and> r < h' \<and> map_of nm' k = Some (ObjectPropertySetState r s k)))"
proof (induction ks arbitrary: nm sm h)
  case Nil
  then show ?case by simp
next
  case (Cons key ks)
  define val where "val = (case map_of oldMap key of Some v \<Rightarrow> v | None \<Rightarrow> ObjectPropertySetState h s key)"
  define h1 where "h1 = (case map_of oldMap key of Some v \<Rightarrow> h | None \<Rightarrow> Suc h)"
  have ne: "key \<noteq> []"
  proof
    assume "key = []"
    then obtain h'' where "memoizeObject_p0_loop oldMap s (key # ks) nm sm h = (Inl ErrorEmptyKey, h'')"
      using p0_loop_empty_key by blast
    with Cons.prems show False by simp
  qed
  from Cons.prems have rec: "memoizeObject_p0_loop oldMap s ks (AList.update key val nm)
        (AList.update (utf16 ''set'' @ toUpperCase (take 1 key) @ drop 1 key) val sm) h1
          = (Inr (nm', sm'), h')"
    by (simp only: p0_loop_next_key[OF ne] val_def h1_def)
  note ih = Cons.IH[OF rec]
  have hh: "h \<le> h1" by (simp add: h1_def split: option.splits)
  have ih1: "h1 \<le> h'" using ih by (rule conjunct1)
  have ih2: "fst ` set nm' = fst ` set (AList.update key val nm) \<union> set ks"
    using ih by blast
  have ih3: "\<And>k. k \<notin> set ks \<Longrightarrow> map_of nm' k = map_of (AList.update key val nm) k"
    using ih by blast
  have ih4: "\<And>k c. k \<in> set ks \<Longrightarrow> map_of oldMap k = Some c \<Longrightarrow> map_of nm' k = Some c"
    using ih by blast
  have ih5: "\<And>k. k \<in> set ks \<Longrightarrow> map_of oldMap k = None \<Longrightarrow>
        (\<exists>r. h1 \<le> r \<and> r < h' \<and> map_of nm' k = Some (ObjectPropertySetState r s k))"
    using ih by blast
  have a: "h \<le> h'" using ih1 hh by simp
  have b: "fst ` set nm' = fst ` set nm \<union> set (key # ks)"
    unfolding ih2 keys_update by auto
  have c: "\<forall>k. k \<notin> set (key # ks) \<longrightarrow> map_of nm' k = map_of nm k"
    by (simp add: ih3 update_conv')
  have d: "\<forall>k c. k \<in> set (key # ks) \<longrightarrow> map_of oldMap k = Some c \<longrightarrow> map_of nm' k = Some c"
  proof (intro allI impI)
    fix k c assume k: "k \<in> set (key # ks)" and o: "map_of oldMap k = Some c"
    show "map_of nm' k = Some c"
    proof (cases "k \<in> set ks")
      case True
      then show ?thesis using o by (rule ih4)
    next
      case False
      with k have kk: "k = key" by simp
      have "map_of nm' k = map_of (AList.update key val nm) k" using False by (rule ih3)
      then show ?thesis using kk o by (simp add: update_conv' val_def)
    qed
  qed
  have e: "\<forall>k. k \<in> set (key # ks) \<longrightarrow> map_of oldMap k = None \<longrightarrow>
        (\<exists>r. h \<le> r \<and> r < h' \<and> map_of nm' k = Some (ObjectPropertySetState r s k))"
  proof (intro allI impI)
    fix k assume k: "k \<in> set (key # ks)" and o: "map_of oldMap k = None"
    show "\<exists>r. h \<le> r \<and> r < h' \<and> map_of nm' k = Some (ObjectPropertySetState r s k)"
    proof (cases "k \<in> set ks")
      case True
      then obtain r where "h1 \<le> r" "r < h'" "map_of nm' k = Some (ObjectPropertySetState r s k)"
        using ih5 o by blast
      then show ?thesis using hh by (intro exI[of _ r]) simp
    next
      case False
      with k have kk: "k = key" by simp
      have "map_of nm' k = map_of (AList.update key val nm) k" using False by (rule ih3)
      then have m: "map_of nm' k = Some (ObjectPropertySetState h s k)"
        using kk o by (simp add: update_conv' val_def)
      have "h1 = Suc h" using kk o by (simp add: h1_def)
      then have "h < h'" using ih1 by simp
      then show ?thesis using m by (intro exI[of _ h]) simp
    qed
  qed
  from a b c d e show ?case by (intro conjI)
qed

lemma memoizeObject_p0_outcome:
  "(if [] \<in> set (keysOf ob)
    then \<exists>h'. memoizeObject_p0 cur ob s h = (Inl ErrorEmptyKey, cur, h')
    else \<exists>r sm m h'. memoizeObject_p0 cur ob s h = (Inr (ObjectSetState r sm), m, h'))"
proof (cases "[] \<in> set (keysOf ob)")
  case True
  from p0_loop_error[OF this, of cur s "[]" "[]" "Suc h"]
  obtain h' where "memoizeObject_p0_loop cur s (keysOf ob) [] [] (Suc h) = (Inl ErrorEmptyKey, h')"
    by blast
  then have "memoizeObject_p0 cur ob s h = (Inl ErrorEmptyKey, cur, h')"
    by (simp add: memoizeObject_p0_def alloc_def)
  with True show ?thesis by simp
next
  case False
  from p0_loop_success[OF this, of cur s "[]" "[]" "Suc h"]
  obtain nm' sm' h' where "memoizeObject_p0_loop cur s (keysOf ob) [] [] (Suc h) = (Inr (nm', sm'), h')"
    by blast
  then have "memoizeObject_p0 cur ob s h = (Inr (ObjectSetState h sm'), nm', h')"
    by (simp add: memoizeObject_p0_def alloc_def)
  with False show ?thesis by simp
qed

lemma memoizeObject_p0_cache:
  assumes "memoizeObject_p0 cur ob s h = (Inr out, m, h')"
  shows "fst ` set m = set (keysOf ob) \<and>
         (\<forall>k c. k \<in> set (keysOf ob) \<longrightarrow> map_of cur k = Some c \<longrightarrow> map_of m k = Some c) \<and>
         (\<forall>k. k \<in> set (keysOf ob) \<longrightarrow> map_of cur k = None \<longrightarrow>
            (\<exists>r. h < r \<and> r < h' \<and> map_of m k = Some (ObjectPropertySetState r s k))) \<and>
         (\<forall>k. k \<notin> set (keysOf ob) \<longrightarrow> map_of m k = None)"
proof -
  obtain res h1 where l: "memoizeObject_p0_loop cur s (keysOf ob) [] [] (Suc h) = (res, h1)"
    by (cases "memoizeObject_p0_loop cur s (keysOf ob) [] [] (Suc h)")
  from assms obtain sm where res: "res = Inr (m, sm)" and h1: "h1 = h'"
    by (cases res) (simp_all add: memoizeObject_p0_def alloc_def l split: prod.splits)
  note r = p0_loop_result[OF l[unfolded res h1]]
  have a: "fst ` set m = set (keysOf ob)" using r by simp
  have b: "\<forall>k c. k \<in> set (keysOf ob) \<longrightarrow> map_of cur k = Some c \<longrightarrow> map_of m k = Some c"
    using r by blast
  have c: "\<forall>k. k \<in> set (keysOf ob) \<longrightarrow> map_of cur k = None \<longrightarrow>
            (\<exists>r. h < r \<and> r < h' \<and> map_of m k = Some (ObjectPropertySetState r s k))"
    using r by (simp add: Suc_le_eq)
  have d: "\<forall>k. k \<notin> set (keysOf ob) \<longrightarrow> map_of m k = None"
    using r by simp
  from a b c d show ?thesis by (intro conjI)
qed


lemma ud_loop_empty_key:
  "\<exists>m' h'. memoizeObject_ud_loop s ([] # ks) m sm h = (Inl ErrorEmptyKey, m', h')"
  by (simp add: capitalize_empty create_property_eq split: option.splits)

lemma ud_loop_next_key:
  "key \<noteq> [] \<Longrightarrow>
   memoizeObject_ud_loop s (key # ks) m sm h =
     memoizeObject_ud_loop s ks
       (case map_of m key of Some v \<Rightarrow> m
        | None \<Rightarrow> AList.update key (ObjectPropertySetState h s key) m)
       (AList.update (utf16 ''set'' @ toUpperCase (take 1 key) @ drop 1 key)
          (case map_of m key of Some v \<Rightarrow> v | None \<Rightarrow> ObjectPropertySetState h s key) sm)
       (case map_of m key of Some v \<Rightarrow> h | None \<Rightarrow> Suc h)"
  by (simp add: capitalize_def create_property_eq split: option.splits)

lemma ud_loop_error:
  "[] \<in> set ks \<Longrightarrow> \<exists>m' h'. memoizeObject_ud_loop s ks m sm h = (Inl ErrorEmptyKey, m', h')"
proof (induction ks arbitrary: m sm h)
  case Nil
  then show ?case by simp
next
  case (Cons k ks)
  show ?case
  proof (cases "k = []")
    case True
    then show ?thesis by (simp only: ud_loop_empty_key)
  next
    case False
    with Cons.prems have "[] \<in> set ks" by auto
    then show ?thesis by (simp only: ud_loop_next_key[OF False] Cons.IH)
  qed
qed

lemma ud_loop_success:
  "[] \<notin> set ks \<Longrightarrow> \<exists>sm' m' h'. memoizeObject_ud_loop s ks m sm h = (Inr sm', m', h')"
proof (induction ks arbitrary: m sm h)
  case Nil
  then show ?case by simp
next
  case (Cons k ks)
  then have k: "k \<noteq> []" and ks: "[] \<notin> set ks" by auto
  show ?case by (simp only: ud_loop_next_key[OF k] Cons.IH[OF ks])
qed

lemma ud_loop_keeps:
  "memoizeObject_ud_loop s ks m sm h = (res, m', h') \<Longrightarrow> fst ` set m \<subseteq> fst ` set m'"
proof (induction ks arbitrary: m sm h)
  case Nil
  then show ?case by simp
next
  case (Cons k ks)
  show ?case
  proof (cases "k = []")
    case True
    have "memoizeObject_ud_loop s ([] # ks) m sm h =
            (Inl ErrorEmptyKey,
             (case map_of m [] of Some v \<Rightarrow> m | None \<Rightarrow> AList.update [] (ObjectPropertySetState h s []) m),
             (case map_of m [] of Some v \<Rightarrow> h | None \<Rightarrow> Suc h))"
      by (simp add: capitalize_empty create_property_eq split: option.splits)
    with Cons.prems True
    have "m' = (case map_of m [] of Some v \<Rightarrow> m | None \<Rightarrow> AList.update [] (ObjectPropertySetState h s []) m)"
      by simp
    then show ?thesis by (auto simp: keys_update split: option.splits)
  next
    case False
    from Cons.prems have "fst ` set (case map_of m k of Some v \<Rightarrow> m
        | None \<Rightarrow> AList.update k (ObjectPropertySetState h s k) m) \<subseteq> fst ` set m'"
      unfolding ud_loop_next_key[OF False] by (rule Cons.IH)
    then show ?thesis by (auto simp: keys_update split: option.splits)
  qed
qed

lemma memoizeObject_ud_outcome:
  "(if [] \<in> set (keysOf ob)
    then \<exists>m h'. memoizeObject_ud cur ob s h = (Inl ErrorEmptyKey, m, h')
    else \<exists>r sm m h'. memoizeObject_ud cur ob s h = (Inr (ObjectSetState r sm), m, h'))"
proof (cases "[] \<in> set (keysOf ob)")
  case True
  from ud_loop_error[OF this, of s cur "[]" "Suc h"]
  obtain m' h' where "memoizeObject_ud_loop s (keysOf ob) cur [] (Suc h) = (Inl ErrorEmptyKey, m', h')"
    by blast
  then have "memoizeObject_ud cur ob s h = (Inl ErrorEmptyKey, m', h')"
    by (simp add: memoizeObject_ud_def alloc_def)
  with True show ?thesis by simp
next
  case False
  from ud_loop_success[OF this, of s cur "[]" "Suc h"]
  obtain sm' m' h' where "memoizeObject_ud_loop s (keysOf ob) cur [] (Suc h) = (Inr sm', m', h')"
    by blast
  then have "memoizeObject_ud cur ob s h = (Inr (ObjectSetState h sm'), m', h')"
    by (simp add: memoizeObject_ud_def alloc_def)
  with False show ?thesis by simp
qed

lemma memoizeObject_ud_keeps:
  assumes "memoizeObject_ud cur ob s h = (res, m, h')"
  shows "fst ` set cur \<subseteq> fst ` set m"
proof -
  obtain r m1 h1 where l: "memoizeObject_ud_loop s (keysOf ob) cur [] (Suc h) = (r, m1, h1)"
    by (cases "memoizeObject_ud_loop s (keysOf ob) cur [] (Suc h)")
  from assms have "m = m1"
    by (cases r) (simp_all add: memoizeObject_ud_def alloc_def l)
  with ud_loop_keeps[OF l] show ?thesis by simp
qed

section \<open>Facts about the hook\<close>

lemma areHookInputsEqual_iff: "areHookInputsEqual a b \<longleftrightarrow> a = b"
proof -
  have "objectIs = (=)" by (intro ext) (simp add: objectIs_def)
  then show ?thesis by (simp add: areHookInputsEqual_def list_all2_eq[symmetric])
qed

lemma useMemo_hit: "useMemo (Some (deps, v)) f deps s = (Inr v, Some (deps, v), s)"
  by (simp add: useMemo_def areHookInputsEqual_iff)

lemma useMemo_miss:
  assumes "\<And>v. memo \<noteq> Some (deps, v)"
  shows "useMemo memo f deps s =
           (case f s of (Inl e, s') \<Rightarrow> (Inl e, memo, s') | (Inr v, s') \<Rightarrow> (Inr v, Some (deps, v), s'))"
proof (cases memo)
  case None
  show ?thesis unfolding None by (simp add: useMemo_def)
next
  case (Some p)
  obtain prev v where p: "p = (prev, v)" by (cases p)
  with Some assms have "prev \<noteq> deps" by auto
  then show ?thesis unfolding Some p by (simp add: useMemo_def areHookInputsEqual_iff)
qed

lemma isObjectOrArray_iff:
  "isObjectOrArray v \<longleftrightarrow> (\<exists>a. v = VArray a) \<or> (\<exists>ob. v = VObject ob)"
  by (cases v) (simp_all add: isObjectOrArray_def typeof_def)

lemma body_not_object:
  "\<not> isObjectOrArray st \<Longrightarrow> useDestucturing_body mo hk st s h = (Inl ErrorNotObjectOrArray, hk, h)"
  by (simp add: useDestucturing_body_def)

lemma narrow_object:
  "narrowRef c isObjectCache (ObjectCache []) =
     ObjectCache (case c of ObjectCache m \<Rightarrow> m | ArrayCache _ \<Rightarrow> [])"
  by (cases c) (simp_all add: narrowRef_def isObjectCache_def)

lemma narrow_array:
  "narrowRef c isArrayCache (ArrayCache []) =
     ArrayCache (case c of ArrayCache m \<Rightarrow> m | ObjectCache _ \<Rightarrow> [])"
  by (cases c) (simp_all add: narrowRef_def isArrayCache_def)

lemma body_object_hit:
  assumes "memoized hk = Some ([DepRef s, DepNumber (hashStrings (keysOf ob))], out)"
  shows "useDestucturing_body mo hk (VObject ob) s h =
           (Inr out, \<lparr>setStateRef = Some (useRef (setStateRef hk) (ObjectCache [])),
                      memoized = memoized hk\<rparr>, h)"
  by (simp add: useDestucturing_body_def isObjectOrArray_def typeof_def assms useMemo_hit)

lemma body_object_miss:
  assumes "\<And>out. memoized hk \<noteq> Some ([DepRef s, DepNumber (hashStrings (keysOf ob))], out)"
  shows "useDestucturing_body mo hk (VObject ob) s h =
           (case mo (currentObjectCache hk) ob s h of
              (res, m, h') \<Rightarrow>
                (res,
                 \<lparr>setStateRef = Some (ObjectCache m),
                  memoized = (case res of Inl e \<Rightarrow> memoized hk
                              | Inr v \<Rightarrow> Some ([DepRef s, DepNumber (hashStrings (keysOf ob))], v))\<rparr>,
                 h'))"
proof -
  obtain res m h' where r: "mo (currentObjectCache hk) ob s h = (res, m, h')"
    by (cases "mo (currentObjectCache hk) ob s h")
  show ?thesis
    unfolding useDestucturing_body_def
    by (cases res)
       (simp_all add: isObjectOrArray_def typeof_def useMemo_miss[OF assms] narrow_object
          currentObjectCache_def[symmetric, unfolded narrow_object cache.case] r)
qed

lemma body_array_hit:
  assumes "memoized hk = Some ([DepRef s, DepRef (fst a)], out)"
  shows "useDestucturing_body mo hk (VArray a) s h =
           (Inr out, \<lparr>setStateRef = Some (useRef (setStateRef hk) (ArrayCache [])),
                      memoized = memoized hk\<rparr>, h)"
  by (simp add: useDestucturing_body_def isObjectOrArray_def typeof_def assms useMemo_hit)

lemma body_array_miss:
  assumes "\<And>out. memoized hk \<noteq> Some ([DepRef s, DepRef (fst a)], out)"
  shows "useDestucturing_body mo hk (VArray a) s h =
           (case memoizeArray (currentArrayCache hk) a s h of
              (res, c, h') \<Rightarrow>
                (res,
                 \<lparr>setStateRef = Some (ArrayCache c),
                  memoized = (case res of Inl e \<Rightarrow> memoized hk
                              | Inr v \<Rightarrow> Some ([DepRef s, DepRef (fst a)], v))\<rparr>,
                 h'))"
proof -
  obtain res c h' where r: "memoizeArray (currentArrayCache hk) a s h = (res, c, h')"
    by (cases "memoizeArray (currentArrayCache hk) a s h")
  show ?thesis
    unfolding useDestucturing_body_def
    by (cases res)
       (simp_all add: isObjectOrArray_def typeof_def useMemo_miss[OF assms] narrow_array
          currentArrayCache_def[symmetric, unfolded narrow_array cache.case] r)
qed

lemma hooks_rebuild: "\<lparr>setStateRef = setStateRef hk, memoized = memoized hk\<rparr> = hk"
  by simp

lemma memoizeArray_ok: "\<exists>out c h'. memoizeArray cache a s h = (Inr out, c, h')"
proof (cases a)
  case (Pair r xs)
  show ?thesis
  proof (cases "length cache = length xs")
    case True
    show ?thesis unfolding Pair using memoizeArray_same_length[OF True, of r s h] by blast
  next
    case False
    show ?thesis unfolding Pair using memoizeArray_other_length[OF False, of r s h] by blast
  qed
qed

lemma body_array_success:
  assumes "useDestucturing_body mo hk (VArray a) s h = (Inr out, hk', h')"
  shows "(\<exists>c. setStateRef hk' = Some c) \<and> memoized hk' = Some ([DepRef s, DepRef (fst a)], out)"
proof (cases "\<exists>v. memoized hk = Some ([DepRef s, DepRef (fst a)], v)")
  case True
  then obtain v where v: "memoized hk = Some ([DepRef s, DepRef (fst a)], v)" by blast
  from assms show ?thesis unfolding body_array_hit[OF v] using v by auto
next
  case False
  then have miss: "\<And>v. memoized hk \<noteq> Some ([DepRef s, DepRef (fst a)], v)" by blast
  obtain res c h1 where r: "memoizeArray (currentArrayCache hk) a s h = (res, c, h1)"
    by (cases "memoizeArray (currentArrayCache hk) a s h")
  from assms show ?thesis unfolding body_array_miss[OF miss] r by auto
qed

lemma body_object_success:
  assumes "useDestucturing_body mo hk (VObject ob) s h = (Inr out, hk', h')"
  shows "(\<exists>c. setStateRef hk' = Some c) \<and>
         memoized hk' = Some ([DepRef s, DepNumber (hashStrings (keysOf ob))], out)"
proof (cases "\<exists>v. memoized hk = Some ([DepRef s, DepNumber (hashStrings (keysOf ob))], v)")
  case True
  then obtain v where v: "memoized hk = Some ([DepRef s, DepNumber (hashStrings (keysOf ob))], v)"
    by blast
  from assms show ?thesis unfolding body_object_hit[OF v] using v by auto
next
  case False
  then have miss: "\<And>v. memoized hk \<noteq> Some ([DepRef s, DepNumber (hashStrings (keysOf ob))], v)"
    by blast
  obtain res m h1 where r: "mo (currentObjectCache hk) ob s h = (res, m, h1)"
    by (cases "mo (currentObjectCache hk) ob s h")
  from assms show ?thesis unfolding body_object_miss[OF miss] r by auto
qed

lemma body_array_again:
  assumes "setStateRef hk = Some c" and "memoized hk = Some ([DepRef s, DepRef (fst a)], out)"
  shows "useDestucturing_body mo hk (VArray a) s h = (Inr out, hk, h)"
proof -
  have "\<lparr>setStateRef = Some (useRef (setStateRef hk) (ArrayCache [])), memoized = memoized hk\<rparr> = hk"
    using assms(1) hooks_rebuild[of hk] by (simp add: useRef_def)
  then show ?thesis unfolding body_array_hit[OF assms(2)] by simp
qed

lemma body_object_again:
  assumes "setStateRef hk = Some c"
    and "memoized hk = Some ([DepRef s, DepNumber (hashStrings (keysOf ob))], out)"
  shows "useDestucturing_body mo hk (VObject ob) s h = (Inr out, hk, h)"
proof -
  have "\<lparr>setStateRef = Some (useRef (setStateRef hk) (ObjectCache [])), memoized = memoized hk\<rparr> = hk"
    using assms(1) hooks_rebuild[of hk] by (simp add: useRef_def)
  then show ?thesis unfolding body_object_hit[OF assms(2)] by simp
qed

lemma body_repeat:
  assumes "useDestucturing_body mo hk st s h = (Inr out, hk', h')"
  shows "useDestucturing_body mo hk' st s h2 = (Inr out, hk', h2)"
proof -
  have "isObjectOrArray st"
  proof (rule ccontr)
    assume "\<not> isObjectOrArray st"
    from assms show False unfolding body_not_object[OF \<open>\<not> isObjectOrArray st\<close>] by simp
  qed
  then consider a where "st = VArray a" | ob where "st = VObject ob"
    unfolding isObjectOrArray_iff by blast
  then show ?thesis
  proof cases
    case 1
    from body_array_success[OF assms[unfolded 1]] obtain c
      where "setStateRef hk' = Some c" "memoized hk' = Some ([DepRef s, DepRef (fst a)], out)"
      by blast
    then show ?thesis unfolding 1 by (rule body_array_again)
  next
    case 2
    from body_object_success[OF assms[unfolded 2]] obtain c
      where "setStateRef hk' = Some c"
        "memoized hk' = Some ([DepRef s, DepNumber (hashStrings (keysOf ob))], out)"
      by blast
    then show ?thesis unfolding 2 by (rule body_object_again)
  qed
qed

section \<open>Claims about the caches and the memo\<close>

text \<open>
  C3. In both files, a derivation that follows a successful derivation with the same state value
  and the same setter returns the same collection, hence the same setter and remover closures,
  and leaves the hook state as it was; the heap in between may have grown. And when the cached
  list is as long as the array, \<open>memoizeArray\<close> leaves the cache as it is and pairs each element
  with the cached closures of its position, a hole of the array staying a hole.
\<close>

theorem derivation_idempotent:
  "(\<forall>use hk st s h out hk' h' h2.
      use = useDestucturing_ud \<or> use = useDestucturing_p0 \<longrightarrow>
      use hk st s h = (Inr out, hk', h') \<longrightarrow>
      use hk' st s h2 = (Inr out, hk', h2)) \<and>
   (\<forall>cache r xs s h.
      length cache = length xs \<longrightarrow>
      memoizeArray cache (r, xs) s h =
        (Inr (ArraySetState h (map (\<lambda>(x, c). map_option (\<lambda>v. (v, fst c, snd c)) x) (zip xs cache))), cache, Suc h))"
proof (intro conjI allI impI)
  fix use hk st s h out hk' h' h2
  assume u: "use = useDestucturing_ud \<or> use = useDestucturing_p0"
    and r: "use hk st s h = (Inr out, hk', h')"
  from u show "use hk' st s h2 = (Inr out, hk', h2)"
  proof
    assume "use = useDestucturing_ud"
    with r show ?thesis unfolding useDestucturing_ud_def by (simp only: body_repeat)
  next
    assume "use = useDestucturing_p0"
    with r show ?thesis unfolding useDestucturing_p0_def by (simp only: body_repeat)
  qed
next
  fix cache :: ArrayCache and r and xs :: "jsval option list" and s h
  assume "length cache = length xs"
  then show "memoizeArray cache (r, xs) s h =
        (Inr (ArraySetState h (map (\<lambda>(x, c). map_option (\<lambda>v. (v, fst c, snd c)) x) (zip xs cache))), cache, Suc h)"
    by (rule memoizeArray_same_length)
qed

theorem derivation_idempotent_witness:
  "useDestucturing_p0 mount (VArray (0, [Some (VNumber 10), Some (VNumber 20)])) 9 10 =
     (Inr (ArraySetState 14 [Some (VNumber 10, ArrayElementSetState 10 9 0, DeleteAction 11 9 0),
                            Some (VNumber 20, ArrayElementSetState 12 9 1, DeleteAction 13 9 1)]),
      \<lparr>setStateRef = Some (ArrayCache [(ArrayElementSetState 10 9 0, DeleteAction 11 9 0),
                                       (ArrayElementSetState 12 9 1, DeleteAction 13 9 1)]),
       memoized = Some ([DepRef 9, DepRef 0],
                    ArraySetState 14 [Some (VNumber 10, ArrayElementSetState 10 9 0, DeleteAction 11 9 0),
                                     Some (VNumber 20, ArrayElementSetState 12 9 1, DeleteAction 13 9 1)])\<rparr>,
      15) \<and>
   useDestucturing_p0
      \<lparr>setStateRef = Some (ArrayCache [(ArrayElementSetState 10 9 0, DeleteAction 11 9 0),
                                       (ArrayElementSetState 12 9 1, DeleteAction 13 9 1)]),
       memoized = Some ([DepRef 9, DepRef 0],
                    ArraySetState 14 [Some (VNumber 10, ArrayElementSetState 10 9 0, DeleteAction 11 9 0),
                                     Some (VNumber 20, ArrayElementSetState 12 9 1, DeleteAction 13 9 1)])\<rparr>
      (VArray (0, [Some (VNumber 10), Some (VNumber 20)])) 9 20 =
     (Inr (ArraySetState 14 [Some (VNumber 10, ArrayElementSetState 10 9 0, DeleteAction 11 9 0),
                            Some (VNumber 20, ArrayElementSetState 12 9 1, DeleteAction 13 9 1)]),
      \<lparr>setStateRef = Some (ArrayCache [(ArrayElementSetState 10 9 0, DeleteAction 11 9 0),
                                       (ArrayElementSetState 12 9 1, DeleteAction 13 9 1)]),
       memoized = Some ([DepRef 9, DepRef 0],
                    ArraySetState 14 [Some (VNumber 10, ArrayElementSetState 10 9 0, DeleteAction 11 9 0),
                                     Some (VNumber 20, ArrayElementSetState 12 9 1, DeleteAction 13 9 1)])\<rparr>,
      20)"
proof -
  have nil: "currentArrayCache mount = []"
    by (simp add: currentArrayCache_def mount_def useRef_def narrowRef_def isArrayCache_def)
  have upt: "[0..<2] = [0, Suc 0]"
    by (simp add: upt_rec)
  have run: "memoizeArray [] (0, [Some (VNumber 10), Some (VNumber 20)]) 9 10 =
     (Inr (ArraySetState 14 [Some (VNumber 10, ArrayElementSetState 10 9 0, DeleteAction 11 9 0),
                            Some (VNumber 20, ArrayElementSetState 12 9 1, DeleteAction 13 9 1)]),
      [(ArrayElementSetState 10 9 0, DeleteAction 11 9 0),
       (ArrayElementSetState 12 9 1, DeleteAction 13 9 1)], 15)"
    by (simp add: memoizeArray_other_length upt)
  have first: "useDestucturing_p0 mount (VArray (0, [Some (VNumber 10), Some (VNumber 20)])) 9 10 =
     (Inr (ArraySetState 14 [Some (VNumber 10, ArrayElementSetState 10 9 0, DeleteAction 11 9 0),
                            Some (VNumber 20, ArrayElementSetState 12 9 1, DeleteAction 13 9 1)]),
      \<lparr>setStateRef = Some (ArrayCache [(ArrayElementSetState 10 9 0, DeleteAction 11 9 0),
                                       (ArrayElementSetState 12 9 1, DeleteAction 13 9 1)]),
       memoized = Some ([DepRef 9, DepRef 0],
                    ArraySetState 14 [Some (VNumber 10, ArrayElementSetState 10 9 0, DeleteAction 11 9 0),
                                     Some (VNumber 20, ArrayElementSetState 12 9 1, DeleteAction 13 9 1)])\<rparr>,
      15)"
    unfolding useDestucturing_p0_def
    by (subst body_array_miss) (simp_all add: mount_def nil[unfolded mount_def] run)
  note again = derivation_idempotent[THEN conjunct1, rule_format, OF disjI2[OF refl] first, of 20]
  from first again show ?thesis by (rule conjI)
qed

text \<open>
  C4. When the cached list and the array differ in length, the new cached list is as long as the
  array. It starts with the first \<open>min(oldLength, newLength)\<close> entries of the old list,
  unchanged. Each later position \<open>p\<close>, from \<open>oldLength\<close> to \<open>newLength - 1\<close>, holds a new pair:
  a setter and a remover bound to the current \<open>setArray\<close> and to \<open>p\<close>, with identities that were
  not in use before the call (they are at least the heap's next free identity \<open>h\<close>) and differ
  from pair to pair. The returned collection pairs each element with the closures of its position
  and has a hole where the array has one.
\<close>

theorem memoizeArray_realigns:
  assumes "length cache \<noteq> length xs"
  shows "\<exists>r' ts cache' h'.
           memoizeArray cache (r, xs) setArray h = (Inr (ArraySetState r' ts), cache', h') \<and>
           length cache' = length xs \<and>
           take (min (length cache) (length xs)) cache' = take (min (length cache) (length xs)) cache \<and>
           (\<forall>i < min (length cache) (length xs). cache' ! i = cache ! i) \<and>
           (\<forall>p. length cache \<le> p \<and> p < length xs \<longrightarrow>
                cache' ! p = (ArrayElementSetState (h + 2 * (p - length cache)) setArray p,
                              DeleteAction (Suc (h + 2 * (p - length cache))) setArray p) \<and>
                Suc (h + 2 * (p - length cache)) < h') \<and>
           length ts = length xs \<and>
           (\<forall>i < length xs. ts ! i = map_option (\<lambda>v. (v, fst (cache' ! i), snd (cache' ! i))) (xs ! i))"
proof -
  define new where "new = map (\<lambda>p. (ArrayElementSetState (h + 2 * (p - length cache)) setArray p,
                                 DeleteAction (Suc (h + 2 * (p - length cache))) setArray p))
                        [length cache..<length xs]"
  define cache' where "cache' = take (min (length cache) (length xs)) cache @ new"
  have eq: "memoizeArray cache (r, xs) setArray h =
           (Inr (ArraySetState (h + 2 * (length xs - length cache))
                   (map (\<lambda>(s, c). map_option (\<lambda>v. (v, fst c, snd c)) s) (zip xs cache'))),
            cache', Suc (h + 2 * (length xs - length cache)))"
    unfolding cache'_def new_def by (rule memoizeArray_other_length[OF assms])
  have len: "length cache' = length xs"
    by (simp add: cache'_def new_def)
  have pre: "take (min (length cache) (length xs)) cache' = take (min (length cache) (length xs)) cache"
    by (simp add: cache'_def)
  have low: "\<forall>i < min (length cache) (length xs). cache' ! i = cache ! i"
    by (simp add: cache'_def nth_append)
  have high: "\<forall>p. length cache \<le> p \<and> p < length xs \<longrightarrow>
                cache' ! p = (ArrayElementSetState (h + 2 * (p - length cache)) setArray p,
                              DeleteAction (Suc (h + 2 * (p - length cache))) setArray p) \<and>
                Suc (h + 2 * (p - length cache)) < Suc (h + 2 * (length xs - length cache))"
  proof (intro allI impI)
    fix p assume p: "length cache \<le> p \<and> p < length xs"
    from p have lt: "p - length cache < length xs - length cache" by arith
    from p have "cache' ! p = new ! (p - length cache)"
      by (simp add: cache'_def nth_append min_def)
    also have "\<dots> = (ArrayElementSetState (h + 2 * (p - length cache)) setArray p,
                              DeleteAction (Suc (h + 2 * (p - length cache))) setArray p)"
    proof -
      from lt have i: "p - length cache < length [length cache..<length xs]" by simp
      from p have j: "[length cache..<length xs] ! (p - length cache) = p" by simp
      show ?thesis unfolding new_def nth_map[OF i] j by (rule refl)
    qed
    finally show "cache' ! p = (ArrayElementSetState (h + 2 * (p - length cache)) setArray p,
                              DeleteAction (Suc (h + 2 * (p - length cache))) setArray p) \<and>
                Suc (h + 2 * (p - length cache)) < Suc (h + 2 * (length xs - length cache))"
      using lt by simp
  qed
  have tl: "length (map (\<lambda>(s, c). map_option (\<lambda>v. (v, fst c, snd c)) s) (zip xs cache')) = length xs"
    by (simp add: len)
  have ts: "\<forall>i < length xs. map (\<lambda>(s, c). map_option (\<lambda>v. (v, fst c, snd c)) s) (zip xs cache') ! i =
              map_option (\<lambda>v. (v, fst (cache' ! i), snd (cache' ! i))) (xs ! i)"
    by (simp add: len)
  from eq len pre low high tl ts show ?thesis by blast
qed

theorem memoizeArray_realigns_witness:
  "\<exists>r' ts cache' h'.
     memoizeArray [(ArrayElementSetState 1 9 0, DeleteAction 2 9 0),
                   (ArrayElementSetState 3 9 1, DeleteAction 4 9 1)]
        (6, [Some (VNumber 10), Some (VNumber 20), Some (VNumber 30)]) 9 7 = (Inr (ArraySetState r' ts), cache', h') \<and>
     length cache' = 3 \<and>
     cache' ! 0 = (ArrayElementSetState 1 9 0, DeleteAction 2 9 0) \<and>
     cache' ! 1 = (ArrayElementSetState 3 9 1, DeleteAction 4 9 1) \<and>
     cache' ! 2 = (ArrayElementSetState 7 9 2, DeleteAction 8 9 2)"
proof -
  have ne: "length [(ArrayElementSetState 1 9 0, DeleteAction 2 9 0),
                    (ArrayElementSetState 3 9 1, DeleteAction 4 9 1)] \<noteq>
            length [Some (VNumber 10), Some (VNumber 20), Some (VNumber 30)]"
    by simp
  from memoizeArray_realigns[OF ne, of 6 9 7] obtain r' ts cache' h' where
    run: "memoizeArray [(ArrayElementSetState 1 9 0, DeleteAction 2 9 0),
                   (ArrayElementSetState 3 9 1, DeleteAction 4 9 1)]
            (6, [Some (VNumber 10), Some (VNumber 20), Some (VNumber 30)]) 9 7 = (Inr (ArraySetState r' ts), cache', h')"
    and len: "length cache' = length [Some (VNumber 10), Some (VNumber 20), Some (VNumber 30)]"
    and low: "\<forall>i < min (length [(ArrayElementSetState 1 9 0, DeleteAction 2 9 0),
                                  (ArrayElementSetState 3 9 1, DeleteAction 4 9 1)])
                             (length [Some (VNumber 10), Some (VNumber 20), Some (VNumber 30)]).
                cache' ! i = [(ArrayElementSetState 1 9 0, DeleteAction 2 9 0),
                              (ArrayElementSetState 3 9 1, DeleteAction 4 9 1)] ! i"
    and high: "\<forall>p. length [(ArrayElementSetState 1 9 0, DeleteAction 2 9 0),
                             (ArrayElementSetState 3 9 1, DeleteAction 4 9 1)] \<le> p \<and>
                    p < length [Some (VNumber 10), Some (VNumber 20), Some (VNumber 30)] \<longrightarrow>
                cache' ! p = (ArrayElementSetState (7 + 2 * (p - length
                                  [(ArrayElementSetState 1 9 0, DeleteAction 2 9 0),
                                   (ArrayElementSetState 3 9 1, DeleteAction 4 9 1)])) 9 p,
                              DeleteAction (Suc (7 + 2 * (p - length
                                  [(ArrayElementSetState 1 9 0, DeleteAction 2 9 0),
                                   (ArrayElementSetState 3 9 1, DeleteAction 4 9 1)]))) 9 p) \<and>
                Suc (7 + 2 * (p - length [(ArrayElementSetState 1 9 0, DeleteAction 2 9 0),
                                           (ArrayElementSetState 3 9 1, DeleteAction 4 9 1)])) < h'"
    by (elim exE conjE)
  have a: "length cache' = 3" using len by simp
  have b: "cache' ! 0 = (ArrayElementSetState 1 9 0, DeleteAction 2 9 0)"
    using low[THEN spec, of 0] by simp
  have c: "cache' ! 1 = (ArrayElementSetState 3 9 1, DeleteAction 4 9 1)"
    using low[THEN spec, of 1] by simp
  have d: "cache' ! 2 = (ArrayElementSetState 7 9 2, DeleteAction 8 9 2)"
    using high[THEN spec, of 2] by simp
  from run a b c d show ?thesis by (intro exI conjI)
qed

section \<open>Claims about the setters\<close>

lemma array_slot_replaced:
  "element_at (assign_index (spread xs) p v) p = v \<and>
   (\<forall>j. j \<noteq> p \<longrightarrow> element_at (assign_index (spread xs) p v) j = element_at xs j) \<and>
   length (assign_index (spread xs) p v) = max (length xs) (Suc p)"
  by (simp add: element_at_assign_same element_at_assign_other length_assign_index)

lemma object_slot_replaced:
  "property_at inherited (AList.update k v ps) k = v \<and>
   (\<forall>k'. k' \<noteq> k \<longrightarrow> map_of (AList.update k v ps) k' = map_of ps k') \<and>
   fst ` set (AList.update k v ps) = insert k (fst ` set ps)"
  by (simp add: property_at_update_same map_of_update_other keys_update)

lemma array_setter_p0_slot:
  "\<exists>f. callArrayElementSetState_p0 setArray p a = SetStateCall setArray (Updater f) \<and>
        (\<forall>r xs h v h1.
           evaluateSetStateAction a (element_at xs p) h = (v, h1) \<longrightarrow>
           \<not> strict_eq (element_at xs p) v \<longrightarrow>
           (\<exists>ys. f (r, xs) h = ((h1, ys), Suc h1) \<and>
                 element_at ys p = v \<and>
                 (\<forall>j. j \<noteq> p \<longrightarrow> element_at ys j = element_at xs j) \<and>
                 length ys = max (length xs) (Suc p)))"
  unfolding callArrayElementSetState_p0_def
  apply (rule exI, rule conjI, rule refl)
  apply (intro allI impI)
  apply (rule_tac x = "assign_index (spread xs) p v" in exI)
  apply (rule conjI)
   apply (simp add: replaceAtIndex_p0_differs)
  apply (rule array_slot_replaced)
  done

lemma array_setter_ud_slot:
  "\<exists>f. callArrayElementSetState_ud setArray p a = SetStateCall setArray (Updater f) \<and>
        (\<forall>r xs h v h1.
           evaluateSetStateAction a (element_at xs p) h = (v, h1) \<longrightarrow>
           \<not> strict_eq (element_at xs p) v \<longrightarrow>
           (\<exists>ys. f (r, xs) h = ((h1, ys), Suc h1) \<and>
                 element_at ys p = v \<and>
                 (\<forall>j. j \<noteq> p \<longrightarrow> element_at ys j = element_at xs j) \<and>
                 length ys = max (length xs) (Suc p)))"
  unfolding callArrayElementSetState_ud_def
  apply (rule exI, rule conjI, rule refl)
  apply (intro allI impI)
  apply (rule_tac x = "assign_index (spread xs) p v" in exI)
  apply (rule conjI)
   apply (simp add: replaceAtIndex_ud_eq)
  apply (rule array_slot_replaced)
  done

lemma object_setter_p0_slot:
  "\<exists>f. callObjectPropertySetState_p0 inherited setObject k b = SetStateCall setObject (Updater f) \<and>
        (\<forall>r ps h v h1.
           evaluateSetStateAction b (property_at inherited ps k) h = (v, h1) \<longrightarrow>
           \<not> strict_eq (property_at inherited ps k) v \<longrightarrow>
           (\<exists>qs. f (r, ps) h = ((h1, qs), Suc h1) \<and>
                 property_at inherited qs k = v \<and>
                 (\<forall>k'. k' \<noteq> k \<longrightarrow> map_of qs k' = map_of ps k') \<and>
                 fst ` set qs = insert k (fst ` set ps)))"
  unfolding callObjectPropertySetState_p0_def
  apply (rule exI, rule conjI, rule refl)
  apply (intro allI impI)
  apply (rule_tac x = "AList.update k v ps" in exI)
  apply (rule conjI)
   apply (simp add: alloc_def)
  apply (rule object_slot_replaced)
  done

lemma object_setter_ud_slot:
  "\<exists>f. callObjectPropertySetState_ud inherited setObject k b = SetStateCall setObject (Updater f) \<and>
        (\<forall>r ps h v h2.
           evaluateSetStateAction b (property_at inherited ps k) (Suc h) = (v, h2) \<longrightarrow>
           \<not> strict_eq (property_at inherited ps k) v \<longrightarrow>
           (\<exists>qs. f (r, ps) h = ((h, qs), h2) \<and>
                 property_at inherited qs k = v \<and>
                 (\<forall>k'. k' \<noteq> k \<longrightarrow> map_of qs k' = map_of ps k') \<and>
                 fst ` set qs = insert k (fst ` set ps)))"
  unfolding callObjectPropertySetState_ud_def
  apply (rule exI, rule conjI, rule refl)
  apply (intro allI impI)
  apply (rule_tac x = "AList.update k v ps" in exI)
  apply (rule conjI)
   apply (simp add: alloc_def)
  apply (rule object_slot_replaced)
  done


text \<open>
  C6. In both files, calling a setter closure, for an array element or for an object property,
  calls the captured whole-container setter with an updater function, never with a value. When
  the value that the update argument resolves to differs from the old one (by \<open>===\<close>), the
  updater returns a new container: the bound position or key holds the new value and every other
  position or key reads as before. An array keeps its length when the position is inside it. The
  new container gets the next free identity: the one after the update argument was resolved, or,
  for the property setter of \<open>src/use-destructuring.ts\<close>, the one before.
\<close>

theorem setter_replaces_only_its_slot:
  "(\<forall>call. call = callArrayElementSetState_p0 \<or> call = callArrayElementSetState_ud \<longrightarrow>
      (\<exists>f. call setArray p a = SetStateCall setArray (Updater f) \<and>
        (\<forall>r xs h v h1.
           evaluateSetStateAction a (element_at xs p) h = (v, h1) \<longrightarrow>
           \<not> strict_eq (element_at xs p) v \<longrightarrow>
           (\<exists>ys. f (r, xs) h = ((h1, ys), Suc h1) \<and>
                 element_at ys p = v \<and>
                 (\<forall>j. j \<noteq> p \<longrightarrow> element_at ys j = element_at xs j) \<and>
                 length ys = max (length xs) (Suc p))))) \<and>
   (\<exists>f. callObjectPropertySetState_p0 inherited setObject k b = SetStateCall setObject (Updater f) \<and>
        (\<forall>r ps h v h1.
           evaluateSetStateAction b (property_at inherited ps k) h = (v, h1) \<longrightarrow>
           \<not> strict_eq (property_at inherited ps k) v \<longrightarrow>
           (\<exists>qs. f (r, ps) h = ((h1, qs), Suc h1) \<and>
                 property_at inherited qs k = v \<and>
                 (\<forall>k'. k' \<noteq> k \<longrightarrow> map_of qs k' = map_of ps k') \<and>
                 fst ` set qs = insert k (fst ` set ps)))) \<and>
   (\<exists>f. callObjectPropertySetState_ud inherited setObject k b = SetStateCall setObject (Updater f) \<and>
        (\<forall>r ps h v h2.
           evaluateSetStateAction b (property_at inherited ps k) (Suc h) = (v, h2) \<longrightarrow>
           \<not> strict_eq (property_at inherited ps k) v \<longrightarrow>
           (\<exists>qs. f (r, ps) h = ((h, qs), h2) \<and>
                 property_at inherited qs k = v \<and>
                 (\<forall>k'. k' \<noteq> k \<longrightarrow> map_of qs k' = map_of ps k') \<and>
                 fst ` set qs = insert k (fst ` set ps))))"
  apply (rule conjI)
   apply (rule allI, rule impI, erule disjE)
    apply (erule ssubst, rule array_setter_p0_slot)
   apply (erule ssubst, rule array_setter_ud_slot)
  apply (rule conjI)
   apply (rule object_setter_p0_slot)
  apply (rule object_setter_ud_slot)
  done

theorem setter_replaces_only_its_slot_witness:
  "\<exists>f ys. callArrayElementSetState_p0 9 1 (Value (VNumber 5)) = SetStateCall 9 (Updater f) \<and>
      \<not> strict_eq (element_at [Some (VNumber 1), Some (VNumber 2), Some (VNumber 3)] 1) (VNumber 5) \<and>
      f (0, [Some (VNumber 1), Some (VNumber 2), Some (VNumber 3)]) 4 = ((4, ys), 5) \<and>
      element_at ys 0 = VNumber 1 \<and> element_at ys 1 = VNumber 5 \<and> element_at ys 2 = VNumber 3 \<and>
      length ys = 3"
proof -
  have ne: "\<not> strict_eq (element_at [Some (VNumber 1), Some (VNumber 2), Some (VNumber 3)] 1) (VNumber 5)"
    by (simp add: strict_eq_def element_at_def)
  have ev: "evaluateSetStateAction (Value (VNumber 5)) (element_at [Some (VNumber 1), Some (VNumber 2), Some (VNumber 3)] 1) 4
              = (VNumber 5, 4)"
    by (simp add: evaluateSetStateAction_def)
  have "callArrayElementSetState_p0 = callArrayElementSetState_p0 \<or>
        callArrayElementSetState_p0 = callArrayElementSetState_ud"
    by (rule disjI1) (rule refl)
  with setter_replaces_only_its_slot[where setArray = 9 and p = 1 and a = "Value (VNumber 5)",
      THEN conjunct1, THEN spec, of callArrayElementSetState_p0]
  have "\<exists>f. callArrayElementSetState_p0 9 1 (Value (VNumber 5)) = SetStateCall 9 (Updater f) \<and>
        (\<forall>r xs h v h1.
           evaluateSetStateAction (Value (VNumber 5)) (element_at xs 1) h = (v, h1) \<longrightarrow>
           \<not> strict_eq (element_at xs 1) v \<longrightarrow>
           (\<exists>ys. f (r, xs) h = ((h1, ys), Suc h1) \<and>
                 element_at ys 1 = v \<and>
                 (\<forall>j. j \<noteq> 1 \<longrightarrow> element_at ys j = element_at xs j) \<and>
                 length ys = max (length xs) (Suc 1)))"
    by (rule mp)
  then obtain f where
    fg: "callArrayElementSetState_p0 9 1 (Value (VNumber 5)) = SetStateCall 9 (Updater f) \<and>
        (\<forall>r xs h v h1.
           evaluateSetStateAction (Value (VNumber 5)) (element_at xs 1) h = (v, h1) \<longrightarrow>
           \<not> strict_eq (element_at xs 1) v \<longrightarrow>
           (\<exists>ys. f (r, xs) h = ((h1, ys), Suc h1) \<and>
                 element_at ys 1 = v \<and>
                 (\<forall>j. j \<noteq> 1 \<longrightarrow> element_at ys j = element_at xs j) \<and>
                 length ys = max (length xs) (Suc 1)))" ..
  from fg[THEN conjunct2, rule_format, OF ev ne, of 0] obtain ys where
    ys: "f (0, [Some (VNumber 1), Some (VNumber 2), Some (VNumber 3)]) 4 = ((4, ys), Suc 4) \<and>
         element_at ys 1 = VNumber 5 \<and>
         (\<forall>j. j \<noteq> 1 \<longrightarrow> element_at ys j = element_at [Some (VNumber 1), Some (VNumber 2), Some (VNumber 3)] j) \<and>
         length ys = max (length [Some (VNumber 1), Some (VNumber 2), Some (VNumber 3)]) (Suc 1)" ..
  have a: "f (0, [Some (VNumber 1), Some (VNumber 2), Some (VNumber 3)]) 4 = ((4, ys), 5)"
    using ys by simp
  have b: "element_at ys 1 = VNumber 5" using ys by simp
  have c: "element_at ys 0 = VNumber 1"
    using ys[THEN conjunct2, THEN conjunct2, THEN conjunct1, THEN spec, of 0]
    by (simp add: element_at_def)
  have d: "element_at ys 2 = VNumber 3"
    using ys[THEN conjunct2, THEN conjunct2, THEN conjunct1, THEN spec, of 2]
    by (simp add: element_at_def)
  have e: "length ys = 3" using ys by simp
  from fg[THEN conjunct1] ne a b c d e show ?thesis
    by (intro exI[of _ f] exI[of _ ys] conjI)
qed

text \<open>
  C2. The setters of \<open>src/unnamed/part_000\<close> return the container they were given when the
  new value equals the old one (\<open>array_setter_p0_same\<close>, \<open>object_setter_p0_same\<close>). Those of
  \<open>src/use-destructuring.ts\<close> do not: setting property \<open>x\<close> of \<open>{x: 1}\<close> to \<open>1\<close>, or
  element \<open>0\<close> of \<open>[1]\<close> to \<open>1\<close>, returns a new container (identity \<open>1\<close>, not \<open>0\<close>).
\<close>

theorem setter_ud_copies_on_equal_value:
  "(\<exists>f. callObjectPropertySetState_ud (\<lambda>k. None) 9 (utf16 ''x'') (Value (VNumber 1)) = SetStateCall 9 (Updater f) \<and>
        strict_eq (property_at (\<lambda>k. None) [(utf16 ''x'', VNumber 1)] (utf16 ''x'')) (VNumber 1) \<and>
        f (0, [(utf16 ''x'', VNumber 1)]) 1 = ((1, [(utf16 ''x'', VNumber 1)]), 2)) \<and>
   (\<exists>f. callArrayElementSetState_ud 9 0 (Value (VNumber 1)) = SetStateCall 9 (Updater f) \<and>
        strict_eq (element_at [Some (VNumber 1)] 0) (VNumber 1) \<and>
        f (0, [Some (VNumber 1)]) 1 = ((1, [Some (VNumber 1)]), 2))"
  by (simp add: callObjectPropertySetState_ud_def callArrayElementSetState_ud_def
      replaceAtIndex_ud_def evaluateSetStateAction_def property_at_def element_at_def
      strict_eq_def alloc_def assign_index_def spread_def utf16_def)

text \<open>
  C1. \<open>memoizeObject\<close> of \<open>src/unnamed/part_000\<close> leaves a cache with exactly the keys of
  the state (\<open>memoizeObject_p0_cache\<close>). That of \<open>src/use-destructuring.ts\<close> never drops a
  key (\<open>memoizeObject_ud_keeps\<close>): after \<open>{x, y}\<close> and then \<open>{x}\<close>, the cache still holds
  the setter of \<open>y\<close>.
\<close>

theorem memoizeObject_ud_keeps_stale_key:
  "memoizeObject_ud [] (0, [(utf16 ''x'', VNumber 1), (utf16 ''y'', VNumber 2)]) 9 1 =
     (Inr (ObjectSetState 1 [(utf16 ''setX'', ObjectPropertySetState 2 9 (utf16 ''x'')),
                             (utf16 ''setY'', ObjectPropertySetState 3 9 (utf16 ''y''))]),
      [(utf16 ''x'', ObjectPropertySetState 2 9 (utf16 ''x'')),
       (utf16 ''y'', ObjectPropertySetState 3 9 (utf16 ''y''))], 4) \<and>
   memoizeObject_ud [(utf16 ''x'', ObjectPropertySetState 2 9 (utf16 ''x'')),
                     (utf16 ''y'', ObjectPropertySetState 3 9 (utf16 ''y''))]
       (4, [(utf16 ''x'', VNumber 1)]) 9 5 =
     (Inr (ObjectSetState 5 [(utf16 ''setX'', ObjectPropertySetState 2 9 (utf16 ''x''))]),
      [(utf16 ''x'', ObjectPropertySetState 2 9 (utf16 ''x'')),
       (utf16 ''y'', ObjectPropertySetState 3 9 (utf16 ''y''))], 6) \<and>
   utf16 ''y'' \<notin> set (keysOf (4, [(utf16 ''x'', VNumber 1)]))"
  by (simp add: memoizeObject_ud_def keysOf_def alloc_def capitalize_def toUpperCase_def
      createObjectPropertySetState_def utf16_def)

section \<open>Claims about the memo and the errors\<close>

lemma p0_loop_heap:
  "memoizeObject_p0_loop oldMap s ks nm sm h = (res, h') \<Longrightarrow> h \<le> h'"
proof (induction ks arbitrary: nm sm h)
  case Nil
  then show ?case by simp
next
  case (Cons k ks)
  show ?case
  proof (cases "k = []")
    case True
    have "memoizeObject_p0_loop oldMap s ([] # ks) nm sm h =
            (Inl ErrorEmptyKey, (case map_of oldMap [] of Some v \<Rightarrow> h | None \<Rightarrow> Suc h))"
      by (simp add: capitalize_empty create_property_eq split: option.splits)
    with Cons.prems True show ?thesis by (auto split: option.splits)
  next
    case False
    from Cons.prems have "(case map_of oldMap k of Some v \<Rightarrow> h | None \<Rightarrow> Suc h) \<le> h'"
      unfolding p0_loop_next_key[OF False] by (rule Cons.IH)
    then show ?thesis by (simp split: option.splits)
  qed
qed

lemma memoizeObject_p0_heap:
  assumes "memoizeObject_p0 cur ob s h = (res, m, h')"
  shows "h < h'"
proof -
  obtain r h1 where l: "memoizeObject_p0_loop cur s (keysOf ob) [] [] (Suc h) = (r, h1)"
    by (cases "memoizeObject_p0_loop cur s (keysOf ob) [] [] (Suc h)")
  from assms have "h' = h1"
    by (cases r) (auto simp: memoizeObject_p0_def alloc_def l)
  with p0_loop_heap[OF l] show ?thesis by simp
qed

lemma ud_loop_heap:
  "memoizeObject_ud_loop s ks m sm h = (res, m', h') \<Longrightarrow> h \<le> h'"
proof (induction ks arbitrary: m sm h)
  case Nil
  then show ?case by simp
next
  case (Cons k ks)
  show ?case
  proof (cases "k = []")
    case True
    have "memoizeObject_ud_loop s ([] # ks) m sm h =
            (Inl ErrorEmptyKey,
             (case map_of m [] of Some v \<Rightarrow> m | None \<Rightarrow> AList.update [] (ObjectPropertySetState h s []) m),
             (case map_of m [] of Some v \<Rightarrow> h | None \<Rightarrow> Suc h))"
      by (simp add: capitalize_empty create_property_eq split: option.splits)
    with Cons.prems True show ?thesis by (auto split: option.splits)
  next
    case False
    from Cons.prems have "(case map_of m k of Some v \<Rightarrow> h | None \<Rightarrow> Suc h) \<le> h'"
      unfolding ud_loop_next_key[OF False] by (rule Cons.IH)
    then show ?thesis by (simp split: option.splits)
  qed
qed

lemma memoizeObject_ud_heap:
  assumes "memoizeObject_ud cur ob s h = (res, m, h')"
  shows "h < h'"
proof -
  obtain r m1 h1 where l: "memoizeObject_ud_loop s (keysOf ob) cur [] (Suc h) = (r, m1, h1)"
    by (cases "memoizeObject_ud_loop s (keysOf ob) cur [] (Suc h)")
  from assms have "h' = h1"
    by (cases r) (auto simp: memoizeObject_ud_def alloc_def l)
  with ud_loop_heap[OF l] show ?thesis by simp
qed

lemma memoizeArray_heap:
  assumes "memoizeArray cache a s h = (res, c, h')"
  shows "h < h'"
proof (cases a)
  case (Pair r xs)
  show ?thesis
  proof (cases "length cache = length xs")
    case True
    from assms show ?thesis unfolding Pair memoizeArray_same_length[OF True] by simp
  next
    case False
    from assms show ?thesis unfolding Pair memoizeArray_other_length[OF False] by auto
  qed
qed

lemma body_object_memo:
  assumes "memoized hk = Some ([DepRef s0, d0], out0)"
  shows "useDestucturing_body mo hk (VObject ob) s h =
           (if s0 = s \<and> d0 = DepNumber (hashStrings (keysOf ob))
            then (Inr out0,
                  \<lparr>setStateRef = Some (useRef (setStateRef hk) (ObjectCache [])),
                   memoized = memoized hk\<rparr>, h)
            else case mo (currentObjectCache hk) ob s h of
                   (res, m, h') \<Rightarrow>
                     (res,
                      \<lparr>setStateRef = Some (ObjectCache m),
                       memoized = (case res of Inl e \<Rightarrow> memoized hk
                                   | Inr v \<Rightarrow> Some ([DepRef s, DepNumber (hashStrings (keysOf ob))], v))\<rparr>,
                      h'))"
proof (cases "s0 = s \<and> d0 = DepNumber (hashStrings (keysOf ob))")
  case True
  with assms have hit: "memoized hk = Some ([DepRef s, DepNumber (hashStrings (keysOf ob))], out0)"
    by simp
  show ?thesis by (subst if_P[OF True]) (rule body_object_hit[OF hit])
next
  case False
  with assms have miss: "\<And>out. memoized hk \<noteq> Some ([DepRef s, DepNumber (hashStrings (keysOf ob))], out)"
    by auto
  show ?thesis by (subst if_not_P[OF False]) (rule body_object_miss[OF miss])
qed

lemma body_array_memo:
  assumes "memoized hk = Some ([DepRef s0, d0], out0)"
  shows "useDestucturing_body mo hk (VArray a) s h =
           (if s0 = s \<and> d0 = DepRef (fst a)
            then (Inr out0,
                  \<lparr>setStateRef = Some (useRef (setStateRef hk) (ArrayCache [])),
                   memoized = memoized hk\<rparr>, h)
            else case memoizeArray (currentArrayCache hk) a s h of
                   (res, c, h') \<Rightarrow>
                     (res,
                      \<lparr>setStateRef = Some (ArrayCache c),
                       memoized = (case res of Inl e \<Rightarrow> memoized hk
                                   | Inr v \<Rightarrow> Some ([DepRef s, DepRef (fst a)], v))\<rparr>,
                      h'))"
proof (cases "s0 = s \<and> d0 = DepRef (fst a)")
  case True
  with assms have hit: "memoized hk = Some ([DepRef s, DepRef (fst a)], out0)"
    by simp
  show ?thesis by (subst if_P[OF True]) (rule body_array_hit[OF hit])
next
  case False
  with assms have miss: "\<And>out. memoized hk \<noteq> Some ([DepRef s, DepRef (fst a)], out)"
    by auto
  show ?thesis by (subst if_not_P[OF False]) (rule body_array_miss[OF miss])
qed

lemma body_first_object:
  "useDestucturing_body mo mount (VObject ob) s h =
     (case mo [] ob s h of
        (res, m, h') \<Rightarrow>
          (res,
           \<lparr>setStateRef = Some (ObjectCache m),
            memoized = (case res of Inl e \<Rightarrow> None
                        | Inr v \<Rightarrow> Some ([DepRef s, DepNumber (hashStrings (keysOf ob))], v))\<rparr>,
           h'))"
proof -
  have nil: "currentObjectCache mount = []"
    by (simp add: currentObjectCache_def mount_def useRef_def narrowRef_def isObjectCache_def)
  have miss: "\<And>out. memoized mount \<noteq> Some ([DepRef s, DepNumber (hashStrings (keysOf ob))], out)"
    by (simp add: mount_def)
  obtain res m h' where r: "mo [] ob s h = (res, m, h')"
    by (cases "mo [] ob s h")
  show ?thesis
    unfolding body_object_miss[OF miss] nil r
    by (cases res) (simp_all add: mount_def)
qed

lemma body_fresh_instance:
  assumes "useDestucturing_body mo hk (VObject ob) s h = (Inr out, hk', h')"
    and "mset (keysOf ob2) = mset (keysOf ob)"
  shows "useDestucturing_body mo hk' (VObject ob2) s h2 = (Inr out, hk', h2)"
proof -
  from body_object_success[OF assms(1)] obtain c
    where c: "setStateRef hk' = Some c"
      and m: "memoized hk' = Some ([DepRef s, DepNumber (hashStrings (keysOf ob))], out)"
    by blast
  have "hashStrings (keysOf ob2) = hashStrings (keysOf ob)"
    using assms(2) by (rule hashStrings_perm)
  with m have "memoized hk' = Some ([DepRef s, DepNumber (hashStrings (keysOf ob2))], out)"
    by simp
  with c show ?thesis by (rule body_object_again)
qed


lemma body_memo:
  assumes grows: "\<And>cur ob s h res m h'. mo cur ob s h = (res, m, h') \<Longrightarrow> h < h'"
  shows "(\<forall>hk ob s h s0 d0 out0.
       memoized hk = Some ([DepRef s0, d0], out0) \<longrightarrow>
       useDestucturing_body mo hk (VObject ob) s h =
         (if s0 = s \<and> d0 = DepNumber (hashStrings (keysOf ob))
          then (Inr out0,
                \<lparr>setStateRef = Some (useRef (setStateRef hk) (ObjectCache [])),
                 memoized = memoized hk\<rparr>, h)
          else case mo (currentObjectCache hk) ob s h of
                 (res, m, h') \<Rightarrow>
                   (res,
                    \<lparr>setStateRef = Some (ObjectCache m),
                     memoized = (case res of Inl e \<Rightarrow> memoized hk
                                 | Inr v \<Rightarrow> Some ([DepRef s, DepNumber (hashStrings (keysOf ob))], v))\<rparr>,
                    h')) \<and>
       (\<not> (s0 = s \<and> d0 = DepNumber (hashStrings (keysOf ob))) \<longrightarrow>
          h < snd (snd (useDestucturing_body mo hk (VObject ob) s h)))) \<and>
    (\<forall>ob s h.
       useDestucturing_body mo mount (VObject ob) s h =
         (case mo [] ob s h of
            (res, m, h') \<Rightarrow>
              (res,
               \<lparr>setStateRef = Some (ObjectCache m),
                memoized = (case res of Inl e \<Rightarrow> None
                            | Inr v \<Rightarrow> Some ([DepRef s, DepNumber (hashStrings (keysOf ob))], v))\<rparr>,
               h'))) \<and>
    (\<forall>hk ob s h out hk' h' ob2 h2.
       useDestucturing_body mo hk (VObject ob) s h = (Inr out, hk', h') \<longrightarrow>
       mset (keysOf ob2) = mset (keysOf ob) \<longrightarrow>
       useDestucturing_body mo hk' (VObject ob2) s h2 = (Inr out, hk', h2)) \<and>
    (\<forall>hk a s h s0 d0 out0.
       memoized hk = Some ([DepRef s0, d0], out0) \<longrightarrow>
       useDestucturing_body mo hk (VArray a) s h =
         (if s0 = s \<and> d0 = DepRef (fst a)
          then (Inr out0,
                \<lparr>setStateRef = Some (useRef (setStateRef hk) (ArrayCache [])),
                 memoized = memoized hk\<rparr>, h)
          else case memoizeArray (currentArrayCache hk) a s h of
                 (res, c, h') \<Rightarrow>
                   (res,
                    \<lparr>setStateRef = Some (ArrayCache c),
                     memoized = (case res of Inl e \<Rightarrow> memoized hk
                                 | Inr v \<Rightarrow> Some ([DepRef s, DepRef (fst a)], v))\<rparr>,
                    h')) \<and>
       (\<not> (s0 = s \<and> d0 = DepRef (fst a)) \<longrightarrow>
          h < snd (snd (useDestucturing_body mo hk (VArray a) s h))))"
proof (intro conjI allI impI)
  fix hk :: hooks and ob s h s0 d0 out0
  assume m: "memoized hk = Some ([DepRef s0, d0], out0)"
  show "useDestucturing_body mo hk (VObject ob) s h =
         (if s0 = s \<and> d0 = DepNumber (hashStrings (keysOf ob))
          then (Inr out0,
                \<lparr>setStateRef = Some (useRef (setStateRef hk) (ObjectCache [])),
                 memoized = memoized hk\<rparr>, h)
          else case mo (currentObjectCache hk) ob s h of
                 (res, m, h') \<Rightarrow>
                   (res,
                    \<lparr>setStateRef = Some (ObjectCache m),
                     memoized = (case res of Inl e \<Rightarrow> memoized hk
                                 | Inr v \<Rightarrow> Some ([DepRef s, DepNumber (hashStrings (keysOf ob))], v))\<rparr>,
                    h'))"
    by (rule body_object_memo[OF m])
  assume n: "\<not> (s0 = s \<and> d0 = DepNumber (hashStrings (keysOf ob)))"
  obtain res c h' where r: "mo (currentObjectCache hk) ob s h = (res, c, h')"
    by (cases "mo (currentObjectCache hk) ob s h")
  have "snd (snd (useDestucturing_body mo hk (VObject ob) s h)) = h'"
    unfolding body_object_memo[OF m] if_not_P[OF n] r by simp
  with grows[OF r] show "h < snd (snd (useDestucturing_body mo hk (VObject ob) s h))"
    by simp
next
  fix ob s h
  show "useDestucturing_body mo mount (VObject ob) s h =
         (case mo [] ob s h of
            (res, m, h') \<Rightarrow>
              (res,
               \<lparr>setStateRef = Some (ObjectCache m),
                memoized = (case res of Inl e \<Rightarrow> None
                            | Inr v \<Rightarrow> Some ([DepRef s, DepNumber (hashStrings (keysOf ob))], v))\<rparr>,
               h'))"
    by (rule body_first_object)
next
  fix hk :: hooks and ob s h out hk' h' ob2 h2
  assume "useDestucturing_body mo hk (VObject ob) s h = (Inr out, hk', h')"
    and "mset (keysOf ob2) = mset (keysOf ob)"
  then show "useDestucturing_body mo hk' (VObject ob2) s h2 = (Inr out, hk', h2)"
    by (rule body_fresh_instance)
next
  fix hk :: hooks and a s h s0 d0 out0
  assume m: "memoized hk = Some ([DepRef s0, d0], out0)"
  show "useDestucturing_body mo hk (VArray a) s h =
         (if s0 = s \<and> d0 = DepRef (fst a)
          then (Inr out0,
                \<lparr>setStateRef = Some (useRef (setStateRef hk) (ArrayCache [])),
                 memoized = memoized hk\<rparr>, h)
          else case memoizeArray (currentArrayCache hk) a s h of
                 (res, c, h') \<Rightarrow>
                   (res,
                    \<lparr>setStateRef = Some (ArrayCache c),
                     memoized = (case res of Inl e \<Rightarrow> memoized hk
                                 | Inr v \<Rightarrow> Some ([DepRef s, DepRef (fst a)], v))\<rparr>,
                    h'))"
    by (rule body_array_memo[OF m])
  assume n: "\<not> (s0 = s \<and> d0 = DepRef (fst a))"
  obtain res c h' where r: "memoizeArray (currentArrayCache hk) a s h = (res, c, h')"
    by (cases "memoizeArray (currentArrayCache hk) a s h")
  have "snd (snd (useDestucturing_body mo hk (VArray a) s h)) = h'"
    unfolding body_array_memo[OF m] if_not_P[OF n] r by simp
  with memoizeArray_heap[OF r] show "h < snd (snd (useDestucturing_body mo hk (VArray a) s h))"
    by simp
qed

text \<open>
  C7. In both files, with the dependencies \<open>[DepRef s0, d0]\<close> and the collection \<open>out0\<close>
  memoized by the last derivation that returned: on an object, the derivation returns \<open>out0\<close>
  and allocates nothing when the setter is \<open>s0\<close> and \<open>d0\<close> is the fingerprint of the current
  keys; otherwise it is the run of \<open>memoizeObject\<close> on the current cache, which allocates. The
  first derivation of a call site always runs \<open>memoizeObject\<close>. After a derivation that
  returned, an object with the same keys, in any order and with any values and identity, and the
  same setter gets the same collection back and the hook state stays as it is. On an array the
  second dependency is the identity of the array: the memoized collection is returned when the
  setter and the array are the same, and \<open>memoizeArray\<close> runs otherwise.
\<close>

theorem memo_tracked_inputs:
  "\<forall>use mo.
     (use = useDestucturing_ud \<and> mo = memoizeObject_ud) \<or>
     (use = useDestucturing_p0 \<and> mo = memoizeObject_p0) \<longrightarrow>
    (\<forall>hk ob s h s0 d0 out0.
       memoized hk = Some ([DepRef s0, d0], out0) \<longrightarrow>
       use hk (VObject ob) s h =
         (if s0 = s \<and> d0 = DepNumber (hashStrings (keysOf ob))
          then (Inr out0,
                \<lparr>setStateRef = Some (useRef (setStateRef hk) (ObjectCache [])),
                 memoized = memoized hk\<rparr>, h)
          else case mo (currentObjectCache hk) ob s h of
                 (res, m, h') \<Rightarrow>
                   (res,
                    \<lparr>setStateRef = Some (ObjectCache m),
                     memoized = (case res of Inl e \<Rightarrow> memoized hk
                                 | Inr v \<Rightarrow> Some ([DepRef s, DepNumber (hashStrings (keysOf ob))], v))\<rparr>,
                    h')) \<and>
       (\<not> (s0 = s \<and> d0 = DepNumber (hashStrings (keysOf ob))) \<longrightarrow>
          h < snd (snd (use hk (VObject ob) s h)))) \<and>
    (\<forall>ob s h.
       use mount (VObject ob) s h =
         (case mo [] ob s h of
            (res, m, h') \<Rightarrow>
              (res,
               \<lparr>setStateRef = Some (ObjectCache m),
                memoized = (case res of Inl e \<Rightarrow> None
                            | Inr v \<Rightarrow> Some ([DepRef s, DepNumber (hashStrings (keysOf ob))], v))\<rparr>,
               h'))) \<and>
    (\<forall>hk ob s h out hk' h' ob2 h2.
       use hk (VObject ob) s h = (Inr out, hk', h') \<longrightarrow>
       mset (keysOf ob2) = mset (keysOf ob) \<longrightarrow>
       use hk' (VObject ob2) s h2 = (Inr out, hk', h2)) \<and>
    (\<forall>hk a s h s0 d0 out0.
       memoized hk = Some ([DepRef s0, d0], out0) \<longrightarrow>
       use hk (VArray a) s h =
         (if s0 = s \<and> d0 = DepRef (fst a)
          then (Inr out0,
                \<lparr>setStateRef = Some (useRef (setStateRef hk) (ArrayCache [])),
                 memoized = memoized hk\<rparr>, h)
          else case memoizeArray (currentArrayCache hk) a s h of
                 (res, c, h') \<Rightarrow>
                   (res,
                    \<lparr>setStateRef = Some (ArrayCache c),
                     memoized = (case res of Inl e \<Rightarrow> memoized hk
                                 | Inr v \<Rightarrow> Some ([DepRef s, DepRef (fst a)], v))\<rparr>,
                    h')) \<and>
       (\<not> (s0 = s \<and> d0 = DepRef (fst a)) \<longrightarrow>
          h < snd (snd (use hk (VArray a) s h))))"
proof (intro allI impI, elim disjE conjE)
  fix use :: "hooks \<Rightarrow> jsval \<Rightarrow> ref \<Rightarrow> heap \<Rightarrow> (error + result) \<times> hooks \<times> heap"
    and mo :: "ObjectCache \<Rightarrow> jsobject \<Rightarrow> ref \<Rightarrow> heap \<Rightarrow> (error + result) \<times> ObjectCache \<times> heap"
  assume u: "use = useDestucturing_ud" and m: "mo = memoizeObject_ud"
  show "(\<forall>hk ob s h s0 d0 out0.
       memoized hk = Some ([DepRef s0, d0], out0) \<longrightarrow>
       use hk (VObject ob) s h =
         (if s0 = s \<and> d0 = DepNumber (hashStrings (keysOf ob))
          then (Inr out0,
                \<lparr>setStateRef = Some (useRef (setStateRef hk) (ObjectCache [])),
                 memoized = memoized hk\<rparr>, h)
          else case mo (currentObjectCache hk) ob s h of
                 (res, m, h') \<Rightarrow>
                   (res,
                    \<lparr>setStateRef = Some (ObjectCache m),
                     memoized = (case res of Inl e \<Rightarrow> memoized hk
                                 | Inr v \<Rightarrow> Some ([DepRef s, DepNumber (hashStrings (keysOf ob))], v))\<rparr>,
                    h')) \<and>
       (\<not> (s0 = s \<and> d0 = DepNumber (hashStrings (keysOf ob))) \<longrightarrow>
          h < snd (snd (use hk (VObject ob) s h)))) \<and>
    (\<forall>ob s h.
       use mount (VObject ob) s h =
         (case mo [] ob s h of
            (res, m, h') \<Rightarrow>
              (res,
               \<lparr>setStateRef = Some (ObjectCache m),
                memoized = (case res of Inl e \<Rightarrow> None
                            | Inr v \<Rightarrow> Some ([DepRef s, DepNumber (hashStrings (keysOf ob))], v))\<rparr>,
               h'))) \<and>
    (\<forall>hk ob s h out hk' h' ob2 h2.
       use hk (VObject ob) s h = (Inr out, hk', h') \<longrightarrow>
       mset (keysOf ob2) = mset (keysOf ob) \<longrightarrow>
       use hk' (VObject ob2) s h2 = (Inr out, hk', h2)) \<and>
    (\<forall>hk a s h s0 d0 out0.
       memoized hk = Some ([DepRef s0, d0], out0) \<longrightarrow>
       use hk (VArray a) s h =
         (if s0 = s \<and> d0 = DepRef (fst a)
          then (Inr out0,
                \<lparr>setStateRef = Some (useRef (setStateRef hk) (ArrayCache [])),
                 memoized = memoized hk\<rparr>, h)
          else case memoizeArray (currentArrayCache hk) a s h of
                 (res, c, h') \<Rightarrow>
                   (res,
                    \<lparr>setStateRef = Some (ArrayCache c),
                     memoized = (case res of Inl e \<Rightarrow> memoized hk
                                 | Inr v \<Rightarrow> Some ([DepRef s, DepRef (fst a)], v))\<rparr>,
                    h')) \<and>
       (\<not> (s0 = s \<and> d0 = DepRef (fst a)) \<longrightarrow>
          h < snd (snd (use hk (VArray a) s h))))"
    unfolding u m useDestucturing_ud_def by (rule body_memo) (rule memoizeObject_ud_heap)
next
  fix use :: "hooks \<Rightarrow> jsval \<Rightarrow> ref \<Rightarrow> heap \<Rightarrow> (error + result) \<times> hooks \<times> heap"
    and mo :: "ObjectCache \<Rightarrow> jsobject \<Rightarrow> ref \<Rightarrow> heap \<Rightarrow> (error + result) \<times> ObjectCache \<times> heap"
  assume u: "use = useDestucturing_p0" and m: "mo = memoizeObject_p0"
  show "(\<forall>hk ob s h s0 d0 out0.
       memoized hk = Some ([DepRef s0, d0], out0) \<longrightarrow>
       use hk (VObject ob) s h =
         (if s0 = s \<and> d0 = DepNumber (hashStrings (keysOf ob))
          then (Inr out0,
                \<lparr>setStateRef = Some (useRef (setStateRef hk) (ObjectCache [])),
                 memoized = memoized hk\<rparr>, h)
          else case mo (currentObjectCache hk) ob s h of
                 (res, m, h') \<Rightarrow>
                   (res,
                    \<lparr>setStateRef = Some (ObjectCache m),
                     memoized = (case res of Inl e \<Rightarrow> memoized hk
                                 | Inr v \<Rightarrow> Some ([DepRef s, DepNumber (hashStrings (keysOf ob))], v))\<rparr>,
                    h')) \<and>
       (\<not> (s0 = s \<and> d0 = DepNumber (hashStrings (keysOf ob))) \<longrightarrow>
          h < snd (snd (use hk (VObject ob) s h)))) \<and>
    (\<forall>ob s h.
       use mount (VObject ob) s h =
         (case mo [] ob s h of
            (res, m, h') \<Rightarrow>
              (res,
               \<lparr>setStateRef = Some (ObjectCache m),
                memoized = (case res of Inl e \<Rightarrow> None
                            | Inr v \<Rightarrow> Some ([DepRef s, DepNumber (hashStrings (keysOf ob))], v))\<rparr>,
               h'))) \<and>
    (\<forall>hk ob s h out hk' h' ob2 h2.
       use hk (VObject ob) s h = (Inr out, hk', h') \<longrightarrow>
       mset (keysOf ob2) = mset (keysOf ob) \<longrightarrow>
       use hk' (VObject ob2) s h2 = (Inr out, hk', h2)) \<and>
    (\<forall>hk a s h s0 d0 out0.
       memoized hk = Some ([DepRef s0, d0], out0) \<longrightarrow>
       use hk (VArray a) s h =
         (if s0 = s \<and> d0 = DepRef (fst a)
          then (Inr out0,
                \<lparr>setStateRef = Some (useRef (setStateRef hk) (ArrayCache [])),
                 memoized = memoized hk\<rparr>, h)
          else case memoizeArray (currentArrayCache hk) a s h of
                 (res, c, h') \<Rightarrow>
                   (res,
                    \<lparr>setStateRef = Some (ArrayCache c),
                     memoized = (case res of Inl e \<Rightarrow> memoized hk
                                 | Inr v \<Rightarrow> Some ([DepRef s, DepRef (fst a)], v))\<rparr>,
                    h')) \<and>
       (\<not> (s0 = s \<and> d0 = DepRef (fst a)) \<longrightarrow>
          h < snd (snd (use hk (VArray a) s h))))"
    unfolding u m useDestucturing_p0_def by (rule body_memo) (rule memoizeObject_p0_heap)
qed


theorem memo_tracked_inputs_witness:
  "useDestucturing_p0 mount (VObject (0, [(utf16 ''x'', VNumber 1)])) 9 10 =
     (Inr (ObjectSetState 10 [(utf16 ''setX'', ObjectPropertySetState 11 9 (utf16 ''x''))]),
      \<lparr>setStateRef = Some (ObjectCache [(utf16 ''x'', ObjectPropertySetState 11 9 (utf16 ''x''))]),
       memoized = Some ([DepRef 9, DepNumber (hashStrings [utf16 ''x''])],
                    ObjectSetState 10 [(utf16 ''setX'', ObjectPropertySetState 11 9 (utf16 ''x''))])\<rparr>,
      12) \<and>
   mset (keysOf (20, [(utf16 ''x'', VNumber 2)])) = mset (keysOf (0, [(utf16 ''x'', VNumber 1)])) \<and>
   useDestucturing_p0
      \<lparr>setStateRef = Some (ObjectCache [(utf16 ''x'', ObjectPropertySetState 11 9 (utf16 ''x''))]),
       memoized = Some ([DepRef 9, DepNumber (hashStrings [utf16 ''x''])],
                    ObjectSetState 10 [(utf16 ''setX'', ObjectPropertySetState 11 9 (utf16 ''x''))])\<rparr>
      (VObject (20, [(utf16 ''x'', VNumber 2)])) 9 30 =
     (Inr (ObjectSetState 10 [(utf16 ''setX'', ObjectPropertySetState 11 9 (utf16 ''x''))]),
      \<lparr>setStateRef = Some (ObjectCache [(utf16 ''x'', ObjectPropertySetState 11 9 (utf16 ''x''))]),
       memoized = Some ([DepRef 9, DepNumber (hashStrings [utf16 ''x''])],
                    ObjectSetState 10 [(utf16 ''setX'', ObjectPropertySetState 11 9 (utf16 ''x''))])\<rparr>,
      30)"
proof -
  have run: "memoizeObject_p0 [] (0, [(utf16 ''x'', VNumber 1)]) 9 10 =
      (Inr (ObjectSetState 10 [(utf16 ''setX'', ObjectPropertySetState 11 9 (utf16 ''x''))]),
       [(utf16 ''x'', ObjectPropertySetState 11 9 (utf16 ''x''))], 12)"
    by (simp add: memoizeObject_p0_def keysOf_def alloc_def capitalize_def toUpperCase_def
        createObjectPropertySetState_def utf16_def)
  have keys: "keysOf (0, [(utf16 ''x'', VNumber 1)]) = [utf16 ''x'']"
    by (simp add: keysOf_def)
  have first: "useDestucturing_p0 mount (VObject (0, [(utf16 ''x'', VNumber 1)])) 9 10 =
     (Inr (ObjectSetState 10 [(utf16 ''setX'', ObjectPropertySetState 11 9 (utf16 ''x''))]),
      \<lparr>setStateRef = Some (ObjectCache [(utf16 ''x'', ObjectPropertySetState 11 9 (utf16 ''x''))]),
       memoized = Some ([DepRef 9, DepNumber (hashStrings [utf16 ''x''])],
                    ObjectSetState 10 [(utf16 ''setX'', ObjectPropertySetState 11 9 (utf16 ''x''))])\<rparr>,
      12)"
    unfolding useDestucturing_p0_def body_first_object run keys by simp
  have same: "mset (keysOf (20, [(utf16 ''x'', VNumber 2)])) = mset (keysOf (0, [(utf16 ''x'', VNumber 1)]))"
    by (simp add: keysOf_def)
  have which: "(useDestucturing_p0 = useDestucturing_ud \<and> memoizeObject_p0 = memoizeObject_ud) \<or>
               (useDestucturing_p0 = useDestucturing_p0 \<and> memoizeObject_p0 = memoizeObject_p0)"
    by (rule disjI2) (rule conjI[OF refl refl])
  note fresh = memo_tracked_inputs[THEN spec, THEN spec, THEN mp, OF which,
      THEN conjunct2, THEN conjunct2, THEN conjunct1, rule_format, OF first same, of 30]
  from first same fresh show ?thesis by (intro conjI)
qed

lemma body_errors:
  assumes out: "\<And>cur ob s h. if [] \<in> set (keysOf ob)
                  then (\<exists>m h'. mo cur ob s h = (Inl ErrorEmptyKey, m, h'))
                  else (\<exists>r sm m h'. mo cur ob s h = (Inr (ObjectSetState r sm), m, h'))"
  shows "fst (useDestucturing_body mo hk st s h) =
           (if \<not> isObjectOrArray st then Inl ErrorNotObjectOrArray
            else if \<exists>ob. st = VObject ob \<and> [] \<in> set (keysOf ob) \<and>
                      (\<forall>v. memoized hk \<noteq> Some ([DepRef s, DepNumber (hashStrings (keysOf ob))], v))
            then Inl ErrorEmptyKey
            else Inr (projr (fst (useDestucturing_body mo hk st s h))))"
proof (cases "isObjectOrArray st")
  case False
  then show ?thesis by (simp add: body_not_object)
next
  case True
  then consider a where "st = VArray a" | ob where "st = VObject ob"
    unfolding isObjectOrArray_iff by blast
  then show ?thesis
  proof cases
    case 1
    have "\<exists>v. fst (useDestucturing_body mo hk (VArray a) s h) = Inr v"
    proof (cases "\<exists>v. memoized hk = Some ([DepRef s, DepRef (fst a)], v)")
      case True
      then obtain v where v: "memoized hk = Some ([DepRef s, DepRef (fst a)], v)" by blast
      show ?thesis unfolding body_array_hit[OF v] by simp
    next
      case False
      then have miss: "\<And>v. memoized hk \<noteq> Some ([DepRef s, DepRef (fst a)], v)" by blast
      obtain v c h' where "memoizeArray (currentArrayCache hk) a s h = (Inr v, c, h')"
        using memoizeArray_ok by blast
      then show ?thesis unfolding body_array_miss[OF miss] by simp
    qed
    then obtain v where "fst (useDestucturing_body mo hk (VArray a) s h) = Inr v" ..
    with True 1 show ?thesis by simp
  next
    case 2
    show ?thesis
    proof (cases "\<exists>v. memoized hk = Some ([DepRef s, DepNumber (hashStrings (keysOf ob))], v)")
      case True
      then obtain v where v: "memoized hk = Some ([DepRef s, DepNumber (hashStrings (keysOf ob))], v)"
        by blast
      have "fst (useDestucturing_body mo hk (VObject ob) s h) = Inr v"
        unfolding body_object_hit[OF v] by simp
      with \<open>isObjectOrArray st\<close> 2 v show ?thesis by simp
    next
      case False
      then have miss: "\<And>v. memoized hk \<noteq> Some ([DepRef s, DepNumber (hashStrings (keysOf ob))], v)"
        by blast
      show ?thesis
      proof (cases "[] \<in> set (keysOf ob)")
        case True
        with out[of ob "currentObjectCache hk" s h] obtain m h'
          where "mo (currentObjectCache hk) ob s h = (Inl ErrorEmptyKey, m, h')"
          by auto
        then have "fst (useDestucturing_body mo hk (VObject ob) s h) = Inl ErrorEmptyKey"
          unfolding body_object_miss[OF miss] by simp
        with \<open>isObjectOrArray st\<close> 2 True miss show ?thesis by simp
      next
        case False
        with out[of ob "currentObjectCache hk" s h] obtain r sm m h'
          where "mo (currentObjectCache hk) ob s h = (Inr (ObjectSetState r sm), m, h')"
          by auto
        then have "fst (useDestucturing_body mo hk (VObject ob) s h) = Inr (ObjectSetState r sm)"
          unfolding body_object_miss[OF miss] by simp
        with \<open>isObjectOrArray st\<close> 2 False show ?thesis by simp
      qed
    qed
  qed
qed


lemma body_usage:
  assumes out: "\<And>cur ob s h. if [] \<in> set (keysOf ob)
                  then (\<exists>m h'. mo cur ob s h = (Inl ErrorEmptyKey, m, h'))
                  else (\<exists>r sm m h'. mo cur ob s h = (Inr (ObjectSetState r sm), m, h'))"
  shows "((\<exists>e. fst (useDestucturing_body mo hk st s h) = Inl e) \<longleftrightarrow>
        (\<not> isObjectOrArray st \<or>
         (\<exists>ob. st = VObject ob \<and> [] \<in> set (keysOf ob) \<and>
               (\<forall>v. memoized hk \<noteq> Some ([DepRef s, DepNumber (hashStrings (keysOf ob))], v))))) \<and>
     (\<forall>e. fst (useDestucturing_body mo hk st s h) = Inl e \<longrightarrow> e = ErrorNotObjectOrArray \<or> e = ErrorEmptyKey) \<and>
     ((\<exists>e. fst (useDestucturing_body mo mount st s h) = Inl e) \<longleftrightarrow>
        (\<not> isObjectOrArray st \<or> (\<exists>ob. st = VObject ob \<and> [] \<in> set (keysOf ob)))) \<and>
     (isObjectOrArray st \<longleftrightarrow> (\<exists>a. st = VArray a) \<or> (\<exists>ob. st = VObject ob))"
proof -
  define G where "G \<longleftrightarrow> (\<exists>ob. st = VObject ob \<and> [] \<in> set (keysOf ob) \<and>
               (\<forall>v. memoized hk \<noteq> Some ([DepRef s, DepNumber (hashStrings (keysOf ob))], v)))"
  define K where "K \<longleftrightarrow> (\<exists>ob. st = VObject ob \<and> [] \<in> set (keysOf ob))"
  have e: "fst (useDestucturing_body mo hk st s h) =
           (if \<not> isObjectOrArray st then Inl ErrorNotObjectOrArray
            else if G then Inl ErrorEmptyKey
            else Inr (projr (fst (useDestucturing_body mo hk st s h))))"
    unfolding G_def by (rule body_errors[of mo, OF out])
  have kk: "K = (\<exists>ob. st = VObject ob \<and> [] \<in> set (keysOf ob) \<and>
               (\<forall>v. memoized mount \<noteq> Some ([DepRef s, DepNumber (hashStrings (keysOf ob))], v)))"
    unfolding K_def by (simp add: mount_def)
  have f: "fst (useDestucturing_body mo mount st s h) =
           (if \<not> isObjectOrArray st then Inl ErrorNotObjectOrArray
            else if K then Inl ErrorEmptyKey
            else Inr (projr (fst (useDestucturing_body mo mount st s h))))"
    unfolding kk by (rule body_errors[of mo, OF out])
  have "(\<exists>e. fst (useDestucturing_body mo hk st s h) = Inl e) \<longleftrightarrow> (\<not> isObjectOrArray st \<or> G)"
    by (cases "isObjectOrArray st"; cases G; subst e; simp)
  then have a: "(\<exists>e. fst (useDestucturing_body mo hk st s h) = Inl e) \<longleftrightarrow>
        (\<not> isObjectOrArray st \<or>
         (\<exists>ob. st = VObject ob \<and> [] \<in> set (keysOf ob) \<and>
               (\<forall>v. memoized hk \<noteq> Some ([DepRef s, DepNumber (hashStrings (keysOf ob))], v))))"
    unfolding G_def .
  have b: "\<forall>e. fst (useDestucturing_body mo hk st s h) = Inl e \<longrightarrow>
             e = ErrorNotObjectOrArray \<or> e = ErrorEmptyKey"
    by (cases "isObjectOrArray st"; cases G; subst e; simp)
  have "(\<exists>e. fst (useDestucturing_body mo mount st s h) = Inl e) \<longleftrightarrow> (\<not> isObjectOrArray st \<or> K)"
    by (cases "isObjectOrArray st"; cases K; subst f; simp)
  then have c: "(\<exists>e. fst (useDestucturing_body mo mount st s h) = Inl e) \<longleftrightarrow>
        (\<not> isObjectOrArray st \<or> (\<exists>ob. st = VObject ob \<and> [] \<in> set (keysOf ob)))"
    unfolding K_def .
  have d: "isObjectOrArray st \<longleftrightarrow> (\<exists>a. st = VArray a) \<or> (\<exists>ob. st = VObject ob)"
    by (rule isObjectOrArray_iff)
  from a b c d show ?thesis by (intro conjI)
qed

text \<open>
  C8, as amended. In both files a derivation raises an error exactly when the state is not an
  array or object (it is \<open>undefined\<close>, \<open>null\<close>, a boolean, a number, a string or a
  function), or when it
  is an object with the empty string among its keys and the reconciliation runs, that is, the
  memoized dependencies are not the current setter and key fingerprint. On the first derivation
  of a call site the reconciliation always runs. The error raised is one of the two usage errors;
  the \<open>TypeError\<close> of a mismatched cache is never raised.
\<close>

theorem usage_errors:
  "\<forall>use. use = useDestucturing_ud \<or> use = useDestucturing_p0 \<longrightarrow>
     ((\<exists>e. fst (use hk st s h) = Inl e) \<longleftrightarrow>
        (\<not> isObjectOrArray st \<or>
         (\<exists>ob. st = VObject ob \<and> [] \<in> set (keysOf ob) \<and>
               (\<forall>v. memoized hk \<noteq> Some ([DepRef s, DepNumber (hashStrings (keysOf ob))], v))))) \<and>
     (\<forall>e. fst (use hk st s h) = Inl e \<longrightarrow> e = ErrorNotObjectOrArray \<or> e = ErrorEmptyKey) \<and>
     ((\<exists>e. fst (use mount st s h) = Inl e) \<longleftrightarrow>
        (\<not> isObjectOrArray st \<or> (\<exists>ob. st = VObject ob \<and> [] \<in> set (keysOf ob)))) \<and>
     (isObjectOrArray st \<longleftrightarrow> (\<exists>a. st = VArray a) \<or> (\<exists>ob. st = VObject ob))"
proof (intro allI impI, elim disjE)
  fix use :: "hooks \<Rightarrow> jsval \<Rightarrow> ref \<Rightarrow> heap \<Rightarrow> (error + result) \<times> hooks \<times> heap"
  assume u: "use = useDestucturing_ud"
  show "((\<exists>e. fst (use hk st s h) = Inl e) \<longleftrightarrow>
        (\<not> isObjectOrArray st \<or>
         (\<exists>ob. st = VObject ob \<and> [] \<in> set (keysOf ob) \<and>
               (\<forall>v. memoized hk \<noteq> Some ([DepRef s, DepNumber (hashStrings (keysOf ob))], v))))) \<and>
     (\<forall>e. fst (use hk st s h) = Inl e \<longrightarrow> e = ErrorNotObjectOrArray \<or> e = ErrorEmptyKey) \<and>
     ((\<exists>e. fst (use mount st s h) = Inl e) \<longleftrightarrow>
        (\<not> isObjectOrArray st \<or> (\<exists>ob. st = VObject ob \<and> [] \<in> set (keysOf ob)))) \<and>
     (isObjectOrArray st \<longleftrightarrow> (\<exists>a. st = VArray a) \<or> (\<exists>ob. st = VObject ob))"
    unfolding u useDestucturing_ud_def by (rule body_usage) (rule memoizeObject_ud_outcome)
next
  fix use :: "hooks \<Rightarrow> jsval \<Rightarrow> ref \<Rightarrow> heap \<Rightarrow> (error + result) \<times> hooks \<times> heap"
  assume u: "use = useDestucturing_p0"
  have out: "if [] \<in> set (keysOf ob)
             then (\<exists>m h'. memoizeObject_p0 cur ob s h = (Inl ErrorEmptyKey, m, h'))
             else (\<exists>r sm m h'. memoizeObject_p0 cur ob s h = (Inr (ObjectSetState r sm), m, h'))"
    for cur ob s h
    using memoizeObject_p0_outcome[of ob cur s h] by (auto split: if_splits)
  show "((\<exists>e. fst (use hk st s h) = Inl e) \<longleftrightarrow>
        (\<not> isObjectOrArray st \<or>
         (\<exists>ob. st = VObject ob \<and> [] \<in> set (keysOf ob) \<and>
               (\<forall>v. memoized hk \<noteq> Some ([DepRef s, DepNumber (hashStrings (keysOf ob))], v))))) \<and>
     (\<forall>e. fst (use hk st s h) = Inl e \<longrightarrow> e = ErrorNotObjectOrArray \<or> e = ErrorEmptyKey) \<and>
     ((\<exists>e. fst (use mount st s h) = Inl e) \<longleftrightarrow>
        (\<not> isObjectOrArray st \<or> (\<exists>ob. st = VObject ob \<and> [] \<in> set (keysOf ob)))) \<and>
     (isObjectOrArray st \<longleftrightarrow> (\<exists>a. st = VArray a) \<or> (\<exists>ob. st = VObject ob))"
    unfolding u useDestucturing_p0_def by (rule body_usage) (rule out)
qed

theorem usage_errors_witness:
  "(\<exists>e. fst (useDestucturing_p0 mount (VObject (0, [([], VNumber 1)])) 9 10) = Inl e) \<and>
   (\<exists>e. fst (useDestucturing_ud mount VNull 9 10) = Inl e)"
proof -
  have k: "\<not> isObjectOrArray (VObject (0, [([], VNumber 1)])) \<or>
           (\<exists>ob. VObject (0, [([], VNumber 1)]) = VObject ob \<and> [] \<in> set (keysOf ob))"
    by (simp add: keysOf_def)
  have n: "\<not> isObjectOrArray VNull \<or> (\<exists>ob. VNull = VObject ob \<and> [] \<in> set (keysOf ob))"
    by (simp add: isObjectOrArray_def)
  note a = usage_errors[THEN spec, THEN mp, OF disjI2[OF refl],
      of mount "VObject (0, [([], VNumber 1)])" 9 10,
      THEN conjunct2, THEN conjunct2, THEN conjunct1, THEN iffD2, OF k]
  note b = usage_errors[THEN spec, THEN mp, OF disjI1[OF refl],
      of mount VNull 9 10,
      THEN conjunct2, THEN conjunct2, THEN conjunct1, THEN iffD2, OF n]
  from a b show ?thesis by (rule conjI)
qed

text \<open>
  C8, as stated, fails. The key sets \<open>{"ff"}\<close> and \<open>{"", "ares"}\<close> have the same
  fingerprint. After a derivation over \<open>{ff: 1}\<close>, a derivation over \<open>{"": 1, ares: 2}\<close> with
  the same setter finds its dependencies unchanged and returns the memoized collection: no error
  is raised although a field identifier is the empty string.
\<close>

theorem usage_error_skipped_by_memo:
  "useDestucturing_p0 mount (VObject (0, [(utf16 ''ff'', VNumber 1)])) 9 10 =
     (Inr (ObjectSetState 10 [(utf16 ''setFf'', ObjectPropertySetState 11 9 (utf16 ''ff''))]),
      \<lparr>setStateRef = Some (ObjectCache [(utf16 ''ff'', ObjectPropertySetState 11 9 (utf16 ''ff''))]),
       memoized = Some ([DepRef 9, DepNumber (- 1028032880)],
                    ObjectSetState 10 [(utf16 ''setFf'', ObjectPropertySetState 11 9 (utf16 ''ff''))])\<rparr>,
      12) \<and>
   [] \<in> set (keysOf (20, [([], VNumber 1), (utf16 ''ares'', VNumber 2)])) \<and>
   isObjectOrArray (VObject (20, [([], VNumber 1), (utf16 ''ares'', VNumber 2)])) \<and>
   fst (useDestucturing_p0
      \<lparr>setStateRef = Some (ObjectCache [(utf16 ''ff'', ObjectPropertySetState 11 9 (utf16 ''ff''))]),
       memoized = Some ([DepRef 9, DepNumber (- 1028032880)],
                    ObjectSetState 10 [(utf16 ''setFf'', ObjectPropertySetState 11 9 (utf16 ''ff''))])\<rparr>
      (VObject (20, [([], VNumber 1), (utf16 ''ares'', VNumber 2)])) 9 30) =
     Inr (ObjectSetState 10 [(utf16 ''setFf'', ObjectPropertySetState 11 9 (utf16 ''ff''))])"
proof -
  have run: "memoizeObject_p0 [] (0, [(utf16 ''ff'', VNumber 1)]) 9 10 =
      (Inr (ObjectSetState 10 [(utf16 ''setFf'', ObjectPropertySetState 11 9 (utf16 ''ff''))]),
       [(utf16 ''ff'', ObjectPropertySetState 11 9 (utf16 ''ff''))], 12)"
    by (simp add: memoizeObject_p0_def keysOf_def alloc_def capitalize_def toUpperCase_def
        createObjectPropertySetState_def utf16_def)
  have fp1: "hashStrings (keysOf (0, [(utf16 ''ff'', VNumber 1)])) = - 1028032880"
    by (simp add: keysOf_def hashStrings_def hashString_def utf16_def imul_def bitxor_def)
  have fp2: "hashStrings (keysOf (20, [([], VNumber 1), (utf16 ''ares'', VNumber 2)])) = - 1028032880"
    by (simp add: keysOf_def hashStrings_def hashString_def utf16_def imul_def bitxor_def)
  have first: "useDestucturing_p0 mount (VObject (0, [(utf16 ''ff'', VNumber 1)])) 9 10 =
     (Inr (ObjectSetState 10 [(utf16 ''setFf'', ObjectPropertySetState 11 9 (utf16 ''ff''))]),
      \<lparr>setStateRef = Some (ObjectCache [(utf16 ''ff'', ObjectPropertySetState 11 9 (utf16 ''ff''))]),
       memoized = Some ([DepRef 9, DepNumber (- 1028032880)],
                    ObjectSetState 10 [(utf16 ''setFf'', ObjectPropertySetState 11 9 (utf16 ''ff''))])\<rparr>,
      12)"
    unfolding useDestucturing_p0_def body_first_object run fp1 by simp
  have key: "[] \<in> set (keysOf (20, [([], VNumber 1), (utf16 ''ares'', VNumber 2)]))"
    by (simp add: keysOf_def)
  have obj: "isObjectOrArray (VObject (20, [([], VNumber 1), (utf16 ''ares'', VNumber 2)]))"
    by (simp add: isObjectOrArray_def typeof_def)
  have second: "fst (useDestucturing_p0
      \<lparr>setStateRef = Some (ObjectCache [(utf16 ''ff'', ObjectPropertySetState 11 9 (utf16 ''ff''))]),
       memoized = Some ([DepRef 9, DepNumber (- 1028032880)],
                    ObjectSetState 10 [(utf16 ''setFf'', ObjectPropertySetState 11 9 (utf16 ''ff''))])\<rparr>
      (VObject (20, [([], VNumber 1), (utf16 ''ares'', VNumber 2)])) 9 30) =
     Inr (ObjectSetState 10 [(utf16 ''setFf'', ObjectPropertySetState 11 9 (utf16 ''ff''))])"
    unfolding useDestucturing_p0_def
    by (subst body_object_hit) (simp_all add: fp2)
  from first key obj second show ?thesis by (intro conjI)
qed

end
